theory Spec2Isabelle
  imports Complex_Main
begin

section \<open>The task queue of \<^verbatim>\<open>src/code/task-queue.js\<close>\<close>

text \<open>
  The class \<^verbatim>\<open>TaskQueue\<close> is embedded as a record of its fields and one state-passing
  function per method. JavaScript runs the methods on one thread, so a method body is one
  atomic state transformer. The asynchronous method \<^verbatim>\<open>runTask\<close> is cut at its
  \<^verbatim>\<open>await\<close>: \<open>runTask\<close> is the part that runs when the method is called, and
  \<open>runTask_resume\<close> is the part that runs once the awaited promise has settled.

  What the methods create outside the object (promises, timers, listeners, emitted events)
  is kept in further fields of the same record, so that the claims about futures can be
  stated. A submission is named by a number: the entry \<^verbatim>\<open>{ task, resolve, reject, priority }\<close>
  carries the number of the promise that \<^verbatim>\<open>add\<close> returned for it, which stands for the
  task function and for the \<^verbatim>\<open>resolve\<close>/\<^verbatim>\<open>reject\<close> pair of that promise.

  Assumptions of the embedding: \<^verbatim>\<open>concurrency\<close> is a number, whole or not, of either
  sign, or \<^verbatim>\<open>Infinity\<close>; \<^verbatim>\<open>timeout\<close> and \<^verbatim>\<open>priority\<close> are integers; a task returns a promise and does not call
  the queue's methods before it returns; listeners do not throw. A task that throws when
  called is a task whose promise rejects at once. Time is not modelled: a timer is set,
  and it fires at some later step or is cleared. (Where \<^verbatim>\<open>emit("error")\<close> finds no
  listener, the emitter throws inside the \<^verbatim>\<open>catch\<close> block; the \<^verbatim>\<open>finally\<close> block runs all
  the same and only the promise of \<^verbatim>\<open>runTask\<close> itself, which nobody holds, rejects.)
\<close>

subsection \<open>Data\<close>

datatype limit = Finite real | Infinity

text \<open>\<^verbatim>\<open>this.runningTasks < this.concurrency\<close>\<close>

fun less_limit :: "int \<Rightarrow> limit \<Rightarrow> bool" where
  "less_limit n (Finite c) = (real_of_int n < c)"
| "less_limit n Infinity = True"

datatype 'e failure = TimeoutError | TaskError 'e

datatype ('v, 'e) outcome = Fulfilled 'v | Rejected "'e failure"

text \<open>How the promise returned by a task settles.\<close>

datatype ('v, 'e) settlement = Resolves 'v | Rejects 'e

datatype event_name = E_active | E_completed | E_error | E_idle | E_next | E_add | E_empty

datatype ('v, 'e) payload = NoArg | Result 'v | Failure "'e failure"

record entry =
  task :: nat
  priority :: int

record options =
  opt_concurrency :: "limit option"
  opt_timeout :: "int option"
  opt_throwOnTimeout :: "bool option"
  opt_autoStart :: "bool option"

record ('v, 'e) TaskQueue =
  concurrency :: limit
  timeout :: int
  throwOnTimeout :: bool
  autoStart :: bool
  taskQueue :: "entry list"
  runningTasks :: int
  paused :: bool
  \<comment> \<open>the promises created so far are numbered \<open>0 ..< nextId\<close>\<close>
  nextId :: nat
  \<comment> \<open>state of the promises returned by \<^verbatim>\<open>add\<close>; \<open>None\<close> is pending\<close>
  settled :: "nat \<Rightarrow> ('v, 'e) outcome option"
  \<comment> \<open>promises returned by \<^verbatim>\<open>onEmpty\<close>/\<^verbatim>\<open>onIdle\<close> that have resolved\<close>
  resolvedVoid :: "nat list"
  \<comment> \<open>listeners registered with \<^verbatim>\<open>once\<close>: event name and the promise to resolve\<close>
  onceListeners :: "(event_name \<times> nat) list"
  \<comment> \<open>every \<^verbatim>\<open>emit\<close>, in order\<close>
  emitted :: "(event_name \<times> ('v, 'e) payload) list"
  \<comment> \<open>every call \<^verbatim>\<open>task()\<close>, in order\<close>
  called :: "nat list"
  \<comment> \<open>tasks called whose promise has not settled yet\<close>
  inflight :: "nat list"
  \<comment> \<open>invocations of \<^verbatim>\<open>runTask\<close> suspended at their \<^verbatim>\<open>await\<close>\<close>
  awaiting :: "nat list"
  \<comment> \<open>timers set by \<^verbatim>\<open>withTimeout\<close> and neither fired nor cleared\<close>
  timers :: "nat list"

subsection \<open>The constructor\<close>

text \<open>
  The parameter of the constructor is the pattern
  \<^verbatim>\<open>{ concurrency = Infinity, timeout = 0, throwOnTimeout = false, autoStart = true } = {}\<close>.
  The argument is absent (\<^verbatim>\<open>undefined\<close>), \<^verbatim>\<open>null\<close> or an options object. The default
  \<^verbatim>\<open>{}\<close> replaces an absent argument only; destructuring \<^verbatim>\<open>null\<close> throws a
  \<^verbatim>\<open>TypeError\<close>, the one way the constructor fails. The body has no check and no
  \<^verbatim>\<open>throw\<close>.
\<close>

datatype js_error = TypeError

datatype argument = Arg_undefined | Arg_null | Arg_object options

text \<open>The body of the constructor, run on an options object: the queue it builds.\<close>

definition the_queue :: "options \<Rightarrow> ('v, 'e) TaskQueue" where
  "the_queue opts =
     (let c = (case opt_concurrency opts of None \<Rightarrow> Infinity | Some c \<Rightarrow> c);
          t = (case opt_timeout opts of None \<Rightarrow> 0 | Some t \<Rightarrow> t);
          th = (case opt_throwOnTimeout opts of None \<Rightarrow> False | Some b \<Rightarrow> b);
          a = (case opt_autoStart opts of None \<Rightarrow> True | Some b \<Rightarrow> b)
      in \<lparr> concurrency = c, timeout = t, throwOnTimeout = th, autoStart = a,
           taskQueue = [], runningTasks = 0, paused = (\<not> a),
           nextId = 0, settled = (\<lambda>_. None), resolvedVoid = [], onceListeners = [],
           emitted = [], called = [], inflight = [], awaiting = [], timers = [] \<rparr>)"

text \<open>\<^verbatim>\<open>new TaskQueue(arg)\<close>: the error thrown, or the queue.\<close>

definition new_TaskQueue :: "argument \<Rightarrow> js_error + ('v, 'e) TaskQueue" where
  "new_TaskQueue arg =
     (case arg of
        Arg_undefined \<Rightarrow>
          Inr (the_queue \<lparr> opt_concurrency = None, opt_timeout = None,
                           opt_throwOnTimeout = None, opt_autoStart = None \<rparr>)
      | Arg_null \<Rightarrow> Inl TypeError
      | Arg_object opts \<Rightarrow> Inr (the_queue opts))"

subsection \<open>Events and promises\<close>

text \<open>
  \<^verbatim>\<open>emit\<close> of the event emitter: the listeners registered with \<^verbatim>\<open>once\<close> for this name
  are called (each resolves its promise) and removed.
\<close>

definition emit :: "event_name \<Rightarrow> ('v, 'e) payload \<Rightarrow> ('v, 'e) TaskQueue \<Rightarrow> ('v, 'e) TaskQueue" where
  "emit name arg q =
     q\<lparr> emitted := emitted q @ [(name, arg)],
        resolvedVoid := resolvedVoid q @ map snd (filter (\<lambda>l. fst l = name) (onceListeners q)),
        onceListeners := filter (\<lambda>l. fst l \<noteq> name) (onceListeners q) \<rparr>"

text \<open>\<^verbatim>\<open>resolve\<close>/\<^verbatim>\<open>reject\<close> of a promise: the first call settles it, later calls do nothing.\<close>

definition settle :: "nat \<Rightarrow> ('v, 'e) outcome \<Rightarrow> ('v, 'e) TaskQueue \<Rightarrow> ('v, 'e) TaskQueue" where
  "settle p out q =
     (if settled q p = None then q\<lparr> settled := (settled q)(p \<mapsto> out) \<rparr> else q)"

subsection \<open>\<^verbatim>\<open>runTask\<close>, \<^verbatim>\<open>withTimeout\<close>, \<^verbatim>\<open>processQueue\<close>\<close>

text \<open>The call \<^verbatim>\<open>task()\<close>.\<close>

definition call_task :: "nat \<Rightarrow> ('v, 'e) TaskQueue \<Rightarrow> ('v, 'e) TaskQueue" where
  "call_task t q = q\<lparr> called := called q @ [t], inflight := inflight q @ [t] \<rparr>"

text \<open>\<^verbatim>\<open>withTimeout\<close>: set the timer, then call the task.\<close>

definition withTimeout :: "nat \<Rightarrow> ('v, 'e) TaskQueue \<Rightarrow> ('v, 'e) TaskQueue" where
  "withTimeout t q = call_task t (q\<lparr> timers := timers q @ [t] \<rparr>)"

text \<open>\<^verbatim>\<open>runTask\<close> up to its \<^verbatim>\<open>await\<close>.\<close>

definition runTask :: "entry \<Rightarrow> ('v, 'e) TaskQueue \<Rightarrow> ('v, 'e) TaskQueue" where
  "runTask e q =
     (let q1 = q\<lparr> runningTasks := runningTasks q + 1 \<rparr>;
          q2 = emit E_active NoArg q1;
          q3 = (if timeout q2 > 0 then withTimeout (task e) q2 else call_task (task e) q2)
      in q3\<lparr> awaiting := awaiting q3 @ [task e] \<rparr>)"

text \<open>
  The body of the loop of \<^verbatim>\<open>processQueue\<close>: \<^verbatim>\<open>shift()\<close> takes the first entry off the
  waiting sequence, and \<^verbatim>\<open>runTask\<close> is called on it. The loop runs the body only on a
  non-empty sequence.
\<close>

definition processQueue_body :: "('v, 'e) TaskQueue \<Rightarrow> ('v, 'e) TaskQueue" where
  "processQueue_body q = runTask (hd (taskQueue q)) (q\<lparr> taskQueue := tl (taskQueue q) \<rparr>)"

function processQueue :: "('v, 'e) TaskQueue \<Rightarrow> ('v, 'e) TaskQueue" where
  "processQueue q =
     (if \<not> paused q \<and> less_limit (runningTasks q) (concurrency q) \<and> taskQueue q \<noteq> []
      then processQueue (processQueue_body q)
      else q)"
  by pat_completeness auto
termination
  by (relation "measure (\<lambda>q. length (taskQueue q))")
     (auto simp: processQueue_body_def runTask_def Let_def withTimeout_def call_task_def emit_def)

declare processQueue.simps [simp del]

text \<open>
  \<^verbatim>\<open>runTask\<close> after its \<^verbatim>\<open>await\<close>. \<open>out\<close> is what the awaited promise settled with: a
  value continues the \<^verbatim>\<open>try\<close> block, an error enters the \<^verbatim>\<open>catch\<close> block.
\<close>

definition runTask_outcome :: "nat \<Rightarrow> ('v, 'e) outcome \<Rightarrow> ('v, 'e) TaskQueue \<Rightarrow> ('v, 'e) TaskQueue" where
  "runTask_outcome t out q =
     (case out of
        Fulfilled v \<Rightarrow> emit E_completed (Result v) (settle t (Fulfilled v) q)
      | Rejected err \<Rightarrow> emit E_error (Failure err) (settle t (Rejected err) q))"

text \<open>The \<^verbatim>\<open>finally\<close> block of \<^verbatim>\<open>runTask\<close>.\<close>

definition runTask_finally :: "('v, 'e) TaskQueue \<Rightarrow> ('v, 'e) TaskQueue" where
  "runTask_finally q =
     (let q1 = q\<lparr> runningTasks := runningTasks q - 1 \<rparr>;
          q2 = (if \<not> paused q1 then processQueue q1 else q1);
          q3 = (if taskQueue q2 = [] \<and> runningTasks q2 = 0 then emit E_idle NoArg q2 else q2)
      in emit E_next NoArg q3)"

definition runTask_resume :: "nat \<Rightarrow> ('v, 'e) outcome \<Rightarrow> ('v, 'e) TaskQueue \<Rightarrow> ('v, 'e) TaskQueue" where
  "runTask_resume t out q =
     runTask_finally (runTask_outcome t out (q\<lparr> awaiting := removeAll t (awaiting q) \<rparr>))"

subsection \<open>The public methods\<close>

text \<open>
  The executor of the promise that \<^verbatim>\<open>add\<close> returns, up to its \<^verbatim>\<open>if\<close>: \<^verbatim>\<open>push\<close>,
  \<^verbatim>\<open>sort\<close> (stable, by priority only) and \<^verbatim>\<open>emit("add")\<close>. \<open>fut\<close> is the new promise.
\<close>

definition push_entry :: "nat \<Rightarrow> int option \<Rightarrow> ('v, 'e) TaskQueue \<Rightarrow> ('v, 'e) TaskQueue" where
  "push_entry fut prio q =
     (let p = (case prio of None \<Rightarrow> 0 | Some p \<Rightarrow> p);
          q1 = q\<lparr> taskQueue := taskQueue q @ [\<lparr> task = fut, priority = p \<rparr>] \<rparr>;
          q2 = q1\<lparr> taskQueue := sort_key priority (taskQueue q1) \<rparr>
      in emit E_add NoArg q2)"

text \<open>\<^verbatim>\<open>add\<close> returns the new promise and the new state.\<close>

definition add :: "int option \<Rightarrow> ('v, 'e) TaskQueue \<Rightarrow> nat \<times> ('v, 'e) TaskQueue" where
  "add prio q =
     (let fut = nextId q;
          q1 = push_entry fut prio (q\<lparr> nextId := Suc fut \<rparr>);
          q2 = (if autoStart q1 \<and> \<not> paused q1 then processQueue q1 else q1)
      in (fut, q2))"

definition pause :: "('v, 'e) TaskQueue \<Rightarrow> ('v, 'e) TaskQueue" where
  "pause q = q\<lparr> paused := True \<rparr>"

definition start :: "('v, 'e) TaskQueue \<Rightarrow> ('v, 'e) TaskQueue" where
  "start q = (if paused q then processQueue (q\<lparr> paused := False \<rparr>) else q)"

definition clear :: "('v, 'e) TaskQueue \<Rightarrow> ('v, 'e) TaskQueue" where
  "clear q = q\<lparr> taskQueue := [] \<rparr>"

definition onEmpty :: "('v, 'e) TaskQueue \<Rightarrow> nat \<times> ('v, 'e) TaskQueue" where
  "onEmpty q =
     (let fut = nextId q;
          q1 = q\<lparr> nextId := Suc fut \<rparr>
      in (fut, if taskQueue q1 = []
               then q1\<lparr> resolvedVoid := resolvedVoid q1 @ [fut] \<rparr>
               else q1\<lparr> onceListeners := onceListeners q1 @ [(E_empty, fut)] \<rparr>))"

definition onIdle :: "('v, 'e) TaskQueue \<Rightarrow> nat \<times> ('v, 'e) TaskQueue" where
  "onIdle q =
     (let fut = nextId q;
          q1 = q\<lparr> nextId := Suc fut \<rparr>
      in (fut, if taskQueue q1 = [] \<and> runningTasks q1 = 0
               then q1\<lparr> resolvedVoid := resolvedVoid q1 @ [fut] \<rparr>
               else q1\<lparr> onceListeners := onceListeners q1 @ [(E_idle, fut)] \<rparr>))"

subsection \<open>What happens to a queue\<close>

text \<open>
  The caller invokes a method, the promise of a called task settles, or a timer fires.
  A task settles only while it is in flight, and a timer fires only while it is set;
  elsewhere the step changes nothing. When the task's promise settles, \<^verbatim>\<open>withTimeout\<close>
  clears the timer and passes the settlement on; \<^verbatim>\<open>runTask\<close> resumes if it is still
  suspended, that is, unless the timer had fired before.
\<close>

datatype ('v, 'e) action =
    Add "int option" | Pause | Start | Clear | OnEmpty | OnIdle
  | TaskSettles nat "('v, 'e) settlement"
  | TimerFires nat

fun outcome_of :: "('v, 'e) settlement \<Rightarrow> ('v, 'e) outcome" where
  "outcome_of (Resolves v) = Fulfilled v"
| "outcome_of (Rejects e) = Rejected (TaskError e)"

definition task_settles :: "nat \<Rightarrow> ('v, 'e) settlement \<Rightarrow> ('v, 'e) TaskQueue \<Rightarrow> ('v, 'e) TaskQueue" where
  "task_settles t s q =
     (if t \<in> set (inflight q)
      then (let q1 = q\<lparr> inflight := removeAll t (inflight q), timers := removeAll t (timers q) \<rparr>
            in if t \<in> set (awaiting q1) then runTask_resume t (outcome_of s) q1 else q1)
      else q)"

definition timer_fires :: "nat \<Rightarrow> ('v, 'e) TaskQueue \<Rightarrow> ('v, 'e) TaskQueue" where
  "timer_fires t q =
     (if t \<in> set (timers q)
      then (let q1 = q\<lparr> timers := removeAll t (timers q) \<rparr>
            in if t \<in> set (awaiting q1) then runTask_resume t (Rejected TimeoutError) q1 else q1)
      else q)"

fun step :: "('v, 'e) action \<Rightarrow> ('v, 'e) TaskQueue \<Rightarrow> ('v, 'e) TaskQueue" where
  "step (Add prio) q = snd (add prio q)"
| "step Pause q = pause q"
| "step Start q = start q"
| "step Clear q = clear q"
| "step OnEmpty q = snd (onEmpty q)"
| "step OnIdle q = snd (onIdle q)"
| "step (TaskSettles t s) q = task_settles t s q"
| "step (TimerFires t) q = timer_fires t q"

fun exec :: "('v, 'e) action list \<Rightarrow> ('v, 'e) TaskQueue \<Rightarrow> ('v, 'e) TaskQueue" where
  "exec [] q = q"
| "exec (a # as) q = exec as (step a q)"

subsection \<open>Invariants\<close>

text \<open>
  The waiting sequence is sorted by priority; no task is waiting twice, called twice, or
  waiting after it has been called; every promise in use has been created.
\<close>

definition ids_ok :: "('v, 'e) TaskQueue \<Rightarrow> bool" where
  "ids_ok q =
     (sorted (map priority (taskQueue q)) \<and>
      distinct (map task (taskQueue q) @ called q) \<and>
      list_all (\<lambda>t. t < nextId q) (map task (taskQueue q) @ called q))"

text \<open>
  The counter \<^verbatim>\<open>runningTasks\<close> is the number of suspended invocations of \<^verbatim>\<open>runTask\<close>.
  With a timeout these are the tasks whose timer is set, without one the tasks in flight.
\<close>

definition running_ok :: "('v, 'e) TaskQueue \<Rightarrow> bool" where
  "running_ok q =
     (set (inflight q) \<subseteq> set (called q) \<and>
      set (timers q) \<subseteq> set (inflight q) \<and>
      (if timeout q > 0 then set (awaiting q) = set (timers q)
       else set (awaiting q) = set (inflight q) \<and> timers q = []) \<and>
      distinct (awaiting q) \<and> distinct (inflight q) \<and>
      runningTasks q = int (length (awaiting q)))"

text \<open>A promise returned by \<^verbatim>\<open>add\<close> is settled only after \<^verbatim>\<open>runTask\<close> has resumed for its task.\<close>

definition settled_ok :: "('v, 'e) TaskQueue \<Rightarrow> bool" where
  "settled_ok q = (\<forall>t. settled q t \<noteq> None \<longrightarrow> t \<in> set (called q) \<and> t \<notin> set (awaiting q))"

definition inv :: "('v, 'e) TaskQueue \<Rightarrow> bool" where
  "inv q = (ids_ok q \<and> running_ok q \<and> settled_ok q)"

text \<open>The bound of C1.\<close>

definition bounded :: "real \<Rightarrow> ('v, 'e) TaskQueue \<Rightarrow> bool" where
  "bounded c q = (concurrency q = Finite c \<and> runningTasks q \<le> max 0 \<lceil>c\<rceil>)"

text \<open>A queue that has never started a task and cannot start one.\<close>

definition dormant :: "('v, 'e) TaskQueue \<Rightarrow> bool" where
  "dormant q =
     (\<not> less_limit 0 (concurrency q) \<and> runningTasks q = 0 \<and> called q = [] \<and>
      inflight q = [] \<and> awaiting q = [] \<and> timers q = [] \<and> settled q = (\<lambda>_. None))"

text \<open>
  A promise of \<^verbatim>\<open>add\<close> that is pending while its task is neither waiting nor called:
  nothing holds its \<^verbatim>\<open>resolve\<close>/\<^verbatim>\<open>reject\<close> pair any more.
\<close>

definition orphan :: "nat \<Rightarrow> ('v, 'e) TaskQueue \<Rightarrow> bool" where
  "orphan t q =
     (t < nextId q \<and> t \<notin> set (map task (taskQueue q)) \<and> t \<notin> set (called q) \<and>
      t \<notin> set (awaiting q) \<and> settled q t = None)"

text \<open>\<open>a\<close> occurs in \<open>xs\<close> before the first \<open>b\<close>.\<close>

definition before :: "nat \<Rightarrow> nat \<Rightarrow> nat list \<Rightarrow> bool" where
  "before a b xs = (a \<in> set (takeWhile (\<lambda>x. x \<noteq> b) xs))"

text \<open>
  The entry \<open>e1\<close> is dealt with before \<open>e2\<close>: while \<open>e2\<close> waits, \<open>e1\<close> waits too or has been
  called; once \<open>e2\<close> has been called, \<open>e1\<close> was called before it.
\<close>

definition in_order :: "entry \<Rightarrow> entry \<Rightarrow> ('v, 'e) TaskQueue \<Rightarrow> bool" where
  "in_order e1 e2 q =
     (task e2 < nextId q \<and>
      sorted (map priority (taskQueue q)) \<and>
      list_all (\<lambda>e. task e = task e2 \<longrightarrow> e = e2) (taskQueue q) \<and>
      (e2 \<in> set (taskQueue q) \<longrightarrow> task e1 \<in> set (called q) \<or> e1 \<in> set (taskQueue q)) \<and>
      (task e2 \<in> set (called q) \<longrightarrow> before (task e1) (task e2) (called q)))"

text \<open>
  A queue with \<^verbatim>\<open>autoStart\<close> that is not paused and has capacity left has nothing waiting.
\<close>

definition drained :: "('v, 'e) TaskQueue \<Rightarrow> bool" where
  "drained q =
     (\<not> autoStart q \<or> paused q \<or> \<not> less_limit (runningTasks q) (concurrency q) \<or>
      taskQueue q = [])"

text \<open>
  Properties of the promises of \<^verbatim>\<open>onEmpty\<close>/\<^verbatim>\<open>onIdle\<close> and of the listeners: \<open>R\<close> relates the
  number of promises created, the resolved promises and the registered listeners. Such a
  property is kept by every step if it is kept by an \<^verbatim>\<open>emit\<close> of any event but \<^verbatim>\<open>"empty"\<close>
  (the class emits no other) and by the creation of a promise. \<open>void_ok\<close>: only created
  promises occur. \<open>unheard p\<close>: promise \<open>p\<close> is pending and listens for \<^verbatim>\<open>"empty"\<close> at most.
\<close>

definition listeners_sat ::
    "(nat \<Rightarrow> nat list \<Rightarrow> (event_name \<times> nat) list \<Rightarrow> bool) \<Rightarrow> ('v, 'e) TaskQueue \<Rightarrow> bool" where
  "listeners_sat R q = R (nextId q) (resolvedVoid q) (onceListeners q)"

definition emit_closed :: "(nat \<Rightarrow> nat list \<Rightarrow> (event_name \<times> nat) list \<Rightarrow> bool) \<Rightarrow> bool" where
  "emit_closed R =
     (\<forall>k rs ls n. n \<noteq> E_empty \<longrightarrow> R k rs ls \<longrightarrow>
        R k (rs @ map snd (filter (\<lambda>l. fst l = n) ls)) (filter (\<lambda>l. fst l \<noteq> n) ls))"

definition fresh_closed :: "(nat \<Rightarrow> nat list \<Rightarrow> (event_name \<times> nat) list \<Rightarrow> bool) \<Rightarrow> bool" where
  "fresh_closed R =
     (\<forall>k rs ls n. R k rs ls \<longrightarrow>
        R (Suc k) rs ls \<and> R (Suc k) (rs @ [k]) ls \<and> R (Suc k) rs (ls @ [(n, k)]))"

definition void_ok :: "nat \<Rightarrow> nat list \<Rightarrow> (event_name \<times> nat) list \<Rightarrow> bool" where
  "void_ok k rs ls = list_all (\<lambda>p. p < k) (rs @ map snd ls)"

definition unheard :: "nat \<Rightarrow> nat \<Rightarrow> nat list \<Rightarrow> (event_name \<times> nat) list \<Rightarrow> bool" where
  "unheard p k rs ls =
     (p < k \<and> p \<notin> set rs \<and> list_all (\<lambda>l. snd l = p \<longrightarrow> fst l = E_empty) ls)"

section \<open>Lemmas\<close>

subsection \<open>Fields after each piece of the code\<close>

lemma processQueue_body_fields [simp]:
  "taskQueue (processQueue_body q) = tl (taskQueue q)"
  "runningTasks (processQueue_body q) = runningTasks q + 1"
  "paused (processQueue_body q) = paused q"
  "concurrency (processQueue_body q) = concurrency q"
  "timeout (processQueue_body q) = timeout q"
  "autoStart (processQueue_body q) = autoStart q"
  "nextId (processQueue_body q) = nextId q"
  "settled (processQueue_body q) = settled q"
  "called (processQueue_body q) = called q @ [task (hd (taskQueue q))]"
  "inflight (processQueue_body q) = inflight q @ [task (hd (taskQueue q))]"
  "awaiting (processQueue_body q) = awaiting q @ [task (hd (taskQueue q))]"
  "timers (processQueue_body q) =
     (if timeout q > 0 then timers q @ [task (hd (taskQueue q))] else timers q)"
  by (simp_all add: processQueue_body_def runTask_def Let_def withTimeout_def call_task_def
        emit_def)

lemma emit_fields [simp]:
  "taskQueue (emit n a q) = taskQueue q"
  "runningTasks (emit n a q) = runningTasks q"
  "paused (emit n a q) = paused q"
  "concurrency (emit n a q) = concurrency q"
  "timeout (emit n a q) = timeout q"
  "autoStart (emit n a q) = autoStart q"
  "nextId (emit n a q) = nextId q"
  "settled (emit n a q) = settled q"
  "called (emit n a q) = called q"
  "inflight (emit n a q) = inflight q"
  "awaiting (emit n a q) = awaiting q"
  "timers (emit n a q) = timers q"
  by (simp_all add: emit_def)

lemma settle_fields [simp]:
  "taskQueue (settle p out q) = taskQueue q"
  "runningTasks (settle p out q) = runningTasks q"
  "paused (settle p out q) = paused q"
  "concurrency (settle p out q) = concurrency q"
  "timeout (settle p out q) = timeout q"
  "autoStart (settle p out q) = autoStart q"
  "nextId (settle p out q) = nextId q"
  "called (settle p out q) = called q"
  "inflight (settle p out q) = inflight q"
  "awaiting (settle p out q) = awaiting q"
  "timers (settle p out q) = timers q"
  "emitted (settle p out q) = emitted q"
  "resolvedVoid (settle p out q) = resolvedVoid q"
  "onceListeners (settle p out q) = onceListeners q"
  by (simp_all add: settle_def)

lemma settled_settle:
  "settled (settle p out q) t = (if t = p \<and> settled q p = None then Some out else settled q t)"
  by (simp add: settle_def)

lemma processQueue_rule:
  assumes "P q"
    and "\<And>s. P s \<Longrightarrow> \<not> paused s \<Longrightarrow> less_limit (runningTasks s) (concurrency s) \<Longrightarrow>
           taskQueue s \<noteq> [] \<Longrightarrow> P (processQueue_body s)"
  shows "P (processQueue q)"
  using assms(1)
proof (induction q rule: processQueue.induct)
  case (1 q)
  show ?case
  proof (cases "\<not> paused q \<and> less_limit (runningTasks q) (concurrency q) \<and> taskQueue q \<noteq> []")
    case True
    then have "P (processQueue_body q)" using assms(2) "1.prems" by blast
    then have "P (processQueue (processQueue_body q))" using "1.IH" True by blast
    then show ?thesis using True by (subst processQueue.simps) simp
  next
    case False
    then show ?thesis using "1.prems" by (subst processQueue.simps) auto
  qed
qed

lemma processQueue_exit:
  "paused (processQueue q) \<or> \<not> less_limit (runningTasks (processQueue q)) (concurrency (processQueue q))
     \<or> taskQueue (processQueue q) = []"
proof (induction q rule: processQueue.induct)
  case (1 q)
  show ?case
  proof (cases "\<not> paused q \<and> less_limit (runningTasks q) (concurrency q) \<and> taskQueue q \<noteq> []")
    case True
    then show ?thesis using "1.IH" by (subst (1 2 3 4) processQueue.simps) simp
  next
    case False
    then show ?thesis by (subst (1 2 3 4) processQueue.simps) auto
  qed
qed

lemma runTask_outcome_fields [simp]:
  "taskQueue (runTask_outcome t out q) = taskQueue q"
  "runningTasks (runTask_outcome t out q) = runningTasks q"
  "paused (runTask_outcome t out q) = paused q"
  "concurrency (runTask_outcome t out q) = concurrency q"
  "timeout (runTask_outcome t out q) = timeout q"
  "autoStart (runTask_outcome t out q) = autoStart q"
  "nextId (runTask_outcome t out q) = nextId q"
  "called (runTask_outcome t out q) = called q"
  "inflight (runTask_outcome t out q) = inflight q"
  "awaiting (runTask_outcome t out q) = awaiting q"
  "timers (runTask_outcome t out q) = timers q"
  "settled (runTask_outcome t out q) = settled (settle t out q)"
  by (simp_all add: runTask_outcome_def split: outcome.splits)

lemma push_entry_fields [simp]:
  "taskQueue (push_entry fut prio q) =
     sort_key priority (taskQueue q @ [\<lparr> task = fut, priority = (case prio of None \<Rightarrow> 0 | Some p \<Rightarrow> p) \<rparr>])"
  "runningTasks (push_entry fut prio q) = runningTasks q"
  "paused (push_entry fut prio q) = paused q"
  "concurrency (push_entry fut prio q) = concurrency q"
  "timeout (push_entry fut prio q) = timeout q"
  "autoStart (push_entry fut prio q) = autoStart q"
  "nextId (push_entry fut prio q) = nextId q"
  "called (push_entry fut prio q) = called q"
  "inflight (push_entry fut prio q) = inflight q"
  "awaiting (push_entry fut prio q) = awaiting q"
  "timers (push_entry fut prio q) = timers q"
  "settled (push_entry fut prio q) = settled q"
  by (simp_all add: push_entry_def Let_def)

lemma runTask_finally_rule:
  assumes "P (q\<lparr> runningTasks := runningTasks q - 1 \<rparr>)"
    and "\<And>s n a. n \<noteq> E_empty \<Longrightarrow> P s \<Longrightarrow> P (emit n a s)"
    and "\<And>s. P s \<Longrightarrow> P (processQueue s)"
  shows "P (runTask_finally q)"
  using assms by (simp add: runTask_finally_def Let_def)

lemma processQueue_fields [simp]:
  "concurrency (processQueue q) = concurrency q"
  "timeout (processQueue q) = timeout q"
  "autoStart (processQueue q) = autoStart q"
  "paused (processQueue q) = paused q"
  "nextId (processQueue q) = nextId q"
  "settled (processQueue q) = settled q"
proof -
  show "concurrency (processQueue q) = concurrency q"
    by (rule processQueue_rule [where P = "\<lambda>s. concurrency s = concurrency q"]) simp_all
  show "timeout (processQueue q) = timeout q"
    by (rule processQueue_rule [where P = "\<lambda>s. timeout s = timeout q"]) simp_all
  show "autoStart (processQueue q) = autoStart q"
    by (rule processQueue_rule [where P = "\<lambda>s. autoStart s = autoStart q"]) simp_all
  show "paused (processQueue q) = paused q"
    by (rule processQueue_rule [where P = "\<lambda>s. paused s = paused q"]) simp_all
  show "nextId (processQueue q) = nextId q"
    by (rule processQueue_rule [where P = "\<lambda>s. nextId s = nextId q"]) simp_all
  show "settled (processQueue q) = settled q"
    by (rule processQueue_rule [where P = "\<lambda>s. settled s = settled q"]) simp_all
qed

lemma processQueue_stuck:
  "paused q \<or> \<not> less_limit (runningTasks q) (concurrency q) \<or> taskQueue q = [] \<Longrightarrow>
   processQueue q = q"
  by (subst processQueue.simps) auto

subsection \<open>The bound on the running count\<close>

lemma below_limit_ceiling: "real_of_int r < c \<Longrightarrow> r + 1 \<le> max 0 \<lceil>c\<rceil>"
  using less_ceiling_iff [of r c] by linarith

lemma bounded_processQueue: "bounded n q \<Longrightarrow> bounded n (processQueue q)"
  by (rule processQueue_rule [where P = "bounded n"])
     (auto simp: bounded_def dest: below_limit_ceiling)

lemma bounded_runTask_resume: "bounded n q \<Longrightarrow> bounded n (runTask_resume t out q)"
  unfolding runTask_resume_def
proof (rule runTask_finally_rule [where P = "bounded n"])
  show "\<And>s. bounded n s \<Longrightarrow> bounded n (processQueue s)"
    by (rule bounded_processQueue)
qed (simp_all add: bounded_def)

lemma bounded_step: "bounded n q \<Longrightarrow> bounded n (step a q)"
proof (cases a)
  case (Add prio)
  assume "bounded n q"
  then have "bounded n (push_entry (nextId q) prio (q\<lparr> nextId := Suc (nextId q) \<rparr>))"
    by (simp add: bounded_def)
  then show ?thesis using Add
    by (auto simp: add_def Let_def intro: bounded_processQueue)
next
  case Start
  assume "bounded n q"
  then have "bounded n (q\<lparr> paused := False \<rparr>)" by (simp add: bounded_def)
  then show ?thesis using Start \<open>bounded n q\<close> by (auto simp: start_def intro: bounded_processQueue)
next
  case (TaskSettles t s)
  assume "bounded n q"
  then have "bounded n (q\<lparr> inflight := removeAll t (inflight q), timers := removeAll t (timers q) \<rparr>)"
    by (simp add: bounded_def)
  then show ?thesis using TaskSettles \<open>bounded n q\<close>
    by (auto simp: task_settles_def Let_def intro: bounded_runTask_resume)
next
  case (TimerFires t)
  assume "bounded n q"
  then have "bounded n (q\<lparr> timers := removeAll t (timers q) \<rparr>)"
    by (simp add: bounded_def)
  then show ?thesis using TimerFires \<open>bounded n q\<close>
    by (auto simp: timer_fires_def Let_def intro: bounded_runTask_resume)
qed (auto simp: bounded_def pause_def clear_def onEmpty_def onIdle_def Let_def)

lemma bounded_exec: "bounded n q \<Longrightarrow> bounded n (exec as q)"
  by (induction as arbitrary: q) (auto intro: bounded_step)

lemma the_queue_fields [simp]:
  "concurrency (the_queue opts) = (case opt_concurrency opts of None \<Rightarrow> Infinity | Some c \<Rightarrow> c)"
  "timeout (the_queue opts) = (case opt_timeout opts of None \<Rightarrow> 0 | Some t \<Rightarrow> t)"
  "autoStart (the_queue opts) = (case opt_autoStart opts of None \<Rightarrow> True | Some b \<Rightarrow> b)"
  "paused (the_queue opts) = (\<not> (case opt_autoStart opts of None \<Rightarrow> True | Some b \<Rightarrow> b))"
  "taskQueue (the_queue opts) = []"
  "runningTasks (the_queue opts) = 0"
  "nextId (the_queue opts) = 0"
  "settled (the_queue opts) = (\<lambda>_. None)"
  "called (the_queue opts) = []"
  "inflight (the_queue opts) = []"
  "awaiting (the_queue opts) = []"
  "timers (the_queue opts) = []"
  "emitted (the_queue opts) = []"
  "resolvedVoid (the_queue opts) = []"
  "onceListeners (the_queue opts) = []"
  by (simp_all add: the_queue_def Let_def)

subsection \<open>The invariants hold in every reachable state\<close>

lemma inv_emit [simp]: "inv (emit n a q) = inv q"
  by (simp add: inv_def ids_ok_def running_ok_def settled_ok_def)

lemma ids_ok_body:
  assumes "ids_ok q" and "taskQueue q \<noteq> []"
  shows "ids_ok (processQueue_body q)"
proof -
  obtain h rest where hr: "taskQueue q = h # rest"
    using assms(2) by (cases "taskQueue q") auto
  show ?thesis using assms(1) by (auto simp: ids_ok_def hr)
qed

lemma awaiting_called: "running_ok q \<Longrightarrow> set (awaiting q) \<subseteq> set (called q)"
  by (auto simp: running_ok_def split: if_splits)

lemma head_not_called:
  "ids_ok q \<Longrightarrow> taskQueue q \<noteq> [] \<Longrightarrow> task (hd (taskQueue q)) \<notin> set (called q)"
  by (cases "taskQueue q") (auto simp: ids_ok_def)

lemma running_ok_body:
  assumes "ids_ok q" and "running_ok q" and "taskQueue q \<noteq> []"
  shows "running_ok (processQueue_body q)"
proof -
  have "task (hd (taskQueue q)) \<notin> set (awaiting q)"
    using head_not_called [OF assms(1,3)] awaiting_called [OF assms(2)] by blast
  moreover have "task (hd (taskQueue q)) \<notin> set (inflight q)"
    using head_not_called [OF assms(1,3)] assms(2) by (auto simp: running_ok_def)
  ultimately show ?thesis using assms(2) by (auto simp: running_ok_def split: if_splits)
qed

lemma settled_ok_body:
  assumes "ids_ok q" and "settled_ok q" and "taskQueue q \<noteq> []"
  shows "settled_ok (processQueue_body q)"
  using head_not_called [OF assms(1,3)] assms(2) by (auto simp: settled_ok_def)

lemma inv_body: "inv q \<Longrightarrow> taskQueue q \<noteq> [] \<Longrightarrow> inv (processQueue_body q)"
  by (simp add: inv_def ids_ok_body running_ok_body settled_ok_body)

lemma inv_processQueue: "inv q \<Longrightarrow> inv (processQueue q)"
  by (rule processQueue_rule [where P = inv]) (simp_all add: inv_body)

lemma distinct_map_sort_key: "distinct (map g (sort_key f xs)) = distinct (map g xs)"
  by (simp add: distinct_map)

lemma inv_push_entry:
  assumes "inv q"
  shows "inv (push_entry (nextId q) prio (q\<lparr> nextId := Suc (nextId q) \<rparr>))"
proof -
  have "ids_ok (push_entry (nextId q) prio (q\<lparr> nextId := Suc (nextId q) \<rparr>))"
    using assms
    by (auto simp: inv_def ids_ok_def distinct_map_sort_key list_all_iff sorted_sort_key ball_Un
          simp del: sort_key_simps intro: less_SucI)
  moreover have "running_ok (push_entry (nextId q) prio (q\<lparr> nextId := Suc (nextId q) \<rparr>))"
    using assms by (simp add: inv_def running_ok_def)
  moreover have "settled_ok (push_entry (nextId q) prio (q\<lparr> nextId := Suc (nextId q) \<rparr>))"
    using assms by (simp add: inv_def settled_ok_def)
  ultimately show ?thesis by (simp add: inv_def)
qed

lemma inv_add: "inv q \<Longrightarrow> inv (snd (add prio q))"
  by (simp add: add_def Let_def inv_push_entry inv_processQueue)

lemma inv_finally:
  "inv (q\<lparr> runningTasks := runningTasks q - 1 \<rparr>) \<Longrightarrow> inv (runTask_finally q)"
  by (rule runTask_finally_rule [where P = inv]) (simp_all add: inv_processQueue)

lemma length_removeAll_distinct:
  "distinct xs \<Longrightarrow> t \<in> set xs \<Longrightarrow> int (length (removeAll t xs)) = int (length xs) - 1"
  by (simp add: distinct_remove1_removeAll [symmetric] length_remove1)
     (metis length_pos_if_in_set One_nat_def Suc_pred int_ops(4) add_diff_cancel_right' of_nat_Suc)

lemma inv_runTask_resume:
  assumes "ids_ok q" and "settled_ok q" and "t \<in> set (called q)"
    and "running_ok (q\<lparr> awaiting := removeAll t (awaiting q), runningTasks := runningTasks q - 1 \<rparr>)"
  shows "inv (runTask_resume t out q)"
  unfolding runTask_resume_def
proof (rule inv_finally)
  let ?q = "(runTask_outcome t out (q\<lparr> awaiting := removeAll t (awaiting q) \<rparr>))
              \<lparr> runningTasks := runningTasks (runTask_outcome t out (q\<lparr> awaiting := removeAll t (awaiting q) \<rparr>)) - 1 \<rparr>"
  have "ids_ok ?q" using assms(1) by (simp add: ids_ok_def)
  moreover have "running_ok ?q"
    using assms(4) by (simp add: running_ok_def cong: if_cong)
  moreover have "settled_ok ?q"
    using assms(2,3) by (auto simp: settled_ok_def settled_settle split: if_splits)
  ultimately show "inv ?q" by (simp add: inv_def)
qed

lemma inv_task_settles: "inv q \<Longrightarrow> inv (task_settles t s q)"
proof -
  assume i: "inv q"
  let ?q1 = "q\<lparr> inflight := removeAll t (inflight q), timers := removeAll t (timers q) \<rparr>"
  have ro: "running_ok q" using i by (simp add: inv_def)
  show ?thesis
  proof (cases "t \<in> set (inflight q)")
    case False
    then show ?thesis using i by (simp add: task_settles_def)
  next
    case True
    show ?thesis
    proof (cases "t \<in> set (awaiting q)")
      case aw: True
      have "ids_ok ?q1" and "settled_ok ?q1"
        using i by (simp_all add: inv_def ids_ok_def settled_ok_def)
      moreover have "t \<in> set (called ?q1)"
        using awaiting_called [OF ro] aw by auto
      moreover have "running_ok (?q1\<lparr> awaiting := removeAll t (awaiting ?q1),
                                     runningTasks := runningTasks ?q1 - 1 \<rparr>)"
        using ro aw True
        by (auto simp: running_ok_def length_removeAll_distinct distinct_removeAll
              split: if_splits)
      ultimately have "inv (runTask_resume t (outcome_of s) ?q1)"
        by (rule inv_runTask_resume)
      then show ?thesis using True aw by (simp add: task_settles_def Let_def)
    next
      case False
      have "inv ?q1"
        using i False True
        by (auto simp: inv_def ids_ok_def settled_ok_def running_ok_def distinct_removeAll
              split: if_splits)
      then show ?thesis using True False by (simp add: task_settles_def Let_def)
    qed
  qed
qed

lemma inv_timer_fires: "inv q \<Longrightarrow> inv (timer_fires t q)"
proof -
  assume i: "inv q"
  let ?q1 = "q\<lparr> timers := removeAll t (timers q) \<rparr>"
  have ro: "running_ok q" using i by (simp add: inv_def)
  show ?thesis
  proof (cases "t \<in> set (timers q)")
    case False
    then show ?thesis using i by (simp add: timer_fires_def)
  next
    case True
    then have aw: "t \<in> set (awaiting q)" and pos: "timeout q > 0"
      using ro by (auto simp: running_ok_def split: if_splits)
    have "ids_ok ?q1" and "settled_ok ?q1"
      using i by (simp_all add: inv_def ids_ok_def settled_ok_def)
    moreover have "t \<in> set (called ?q1)"
      using awaiting_called [OF ro] aw by auto
    moreover have "running_ok (?q1\<lparr> awaiting := removeAll t (awaiting ?q1),
                                   runningTasks := runningTasks ?q1 - 1 \<rparr>)"
      using ro aw True
      by (auto simp: running_ok_def length_removeAll_distinct distinct_removeAll
            split: if_splits)
    ultimately have "inv (runTask_resume t (Rejected TimeoutError) ?q1)"
      by (rule inv_runTask_resume)
    then show ?thesis using True aw by (simp add: timer_fires_def Let_def)
  qed
qed

lemma inv_step: "inv q \<Longrightarrow> inv (step a q)"
proof (cases a)
  case Start
  assume i: "inv q"
  then have "inv (q\<lparr> paused := False \<rparr>)"
    by (simp add: inv_def ids_ok_def settled_ok_def running_ok_def)
  then show ?thesis using Start i by (simp add: start_def inv_processQueue)
next
  case (Add prio)
  assume "inv q"
  then show ?thesis using Add by (simp add: inv_add)
next
  case (TaskSettles t s)
  assume "inv q"
  then show ?thesis using TaskSettles by (simp add: inv_task_settles)
next
  case (TimerFires t)
  assume "inv q"
  then show ?thesis using TimerFires by (simp add: inv_timer_fires)
qed (auto simp: pause_def clear_def onEmpty_def onIdle_def Let_def inv_def ids_ok_def
       settled_ok_def running_ok_def list_all_iff intro: less_SucI)

lemma inv_exec: "inv q \<Longrightarrow> inv (exec as q)"
  by (induction as arbitrary: q) (auto intro: inv_step)

lemma inv_the_queue: "inv (the_queue opts)"
  by (simp add: inv_def ids_ok_def settled_ok_def running_ok_def)

lemma inv_reachable: "inv (exec as (the_queue opts))"
  by (rule inv_exec [OF inv_the_queue])

lemma awaiting_inflight: "running_ok q \<Longrightarrow> set (awaiting q) \<subseteq> set (inflight q)"
  by (auto simp: running_ok_def split: if_splits)

lemma inflight_count:
  assumes "running_ok q" and "timeout q \<le> 0"
  shows "int (length (inflight q)) = runningTasks q"
proof -
  have "set (awaiting q) = set (inflight q)" and "distinct (awaiting q)"
    and "distinct (inflight q)" and "runningTasks q = int (length (awaiting q))"
    using assms by (auto simp: running_ok_def split: if_splits)
  then show ?thesis by (metis distinct_card)
qed

subsection \<open>Running the code on a concrete input\<close>

lemmas run_defs =
  the_queue_def add_def push_entry_def pause_def start_def clear_def
  onEmpty_def onIdle_def task_settles_def timer_fires_def processQueue.simps
  processQueue_body_def runTask_def runTask_resume_def runTask_outcome_def runTask_finally_def
  withTimeout_def call_task_def emit_def settle_def Let_def

subsection \<open>A queue whose concurrency is not positive\<close>

lemma dormant_processQueue: "dormant q \<Longrightarrow> processQueue q = q"
  by (rule processQueue_stuck) (simp add: dormant_def)

lemma dormant_step: "dormant q \<Longrightarrow> dormant (step a q)"
proof (cases a)
  case (Add prio)
  assume d: "dormant q"
  then have "dormant (push_entry (nextId q) prio (q\<lparr> nextId := Suc (nextId q) \<rparr>))"
    by (simp add: dormant_def)
  then show ?thesis using Add by (simp add: add_def Let_def dormant_processQueue)
next
  case Start
  assume d: "dormant q"
  then have "dormant (q\<lparr> paused := False \<rparr>)" by (simp add: dormant_def)
  then show ?thesis using Start d by (simp add: start_def dormant_processQueue)
qed (auto simp: dormant_def pause_def clear_def onEmpty_def onIdle_def Let_def
       task_settles_def timer_fires_def)

lemma dormant_exec: "dormant q \<Longrightarrow> dormant (exec as q)"
  by (induction as arbitrary: q) (auto intro: dormant_step)

lemma length_taskQueue_add_dormant:
  assumes "dormant q"
  shows "length (taskQueue (snd (add prio q))) = Suc (length (taskQueue q))"
    and "fst (add prio q) \<in> set (map task (taskQueue (snd (add prio q))))"
proof -
  have d: "dormant (push_entry (nextId q) prio (q\<lparr> nextId := Suc (nextId q) \<rparr>))"
    using assms by (simp add: dormant_def)
  show "length (taskQueue (snd (add prio q))) = Suc (length (taskQueue q))"
    using d by (simp add: add_def Let_def dormant_processQueue del: sort_key_simps)
  show "fst (add prio q) \<in> set (map task (taskQueue (snd (add prio q))))"
    using d by (simp add: add_def Let_def dormant_processQueue del: sort_key_simps)
qed

subsection \<open>A discarded entry stays pending\<close>

lemma orphan_emit [simp]: "orphan t (emit n a q) = orphan t q"
  by (simp add: orphan_def)

lemma orphan_body: "orphan t q \<Longrightarrow> taskQueue q \<noteq> [] \<Longrightarrow> orphan t (processQueue_body q)"
  by (cases "taskQueue q") (auto simp: orphan_def)

lemma orphan_processQueue: "orphan t q \<Longrightarrow> orphan t (processQueue q)"
  by (rule processQueue_rule [where P = "orphan t"]) (simp_all add: orphan_body)

lemma orphan_runTask_resume:
  assumes "orphan t q" and "t' \<noteq> t"
  shows "orphan t (runTask_resume t' out q)"
  unfolding runTask_resume_def
proof (rule runTask_finally_rule [where P = "orphan t"])
  show "\<And>s. orphan t s \<Longrightarrow> orphan t (processQueue s)" by (rule orphan_processQueue)
  show "orphan t
     (runTask_outcome t' out (q\<lparr>awaiting := removeAll t' (awaiting q)\<rparr>)
      \<lparr>runningTasks := runningTasks (runTask_outcome t' out (q\<lparr>awaiting := removeAll t' (awaiting q)\<rparr>)) - 1\<rparr>)"
    using assms by (simp add: orphan_def settled_settle)
qed simp

lemma orphan_step: "orphan t q \<Longrightarrow> orphan t (step a q)"
proof (cases a)
  case (Add prio)
  assume "orphan t q"
  then have "orphan t (push_entry (nextId q) prio (q\<lparr> nextId := Suc (nextId q) \<rparr>))"
    by (auto simp: orphan_def simp del: sort_key_simps)
  then show ?thesis using Add by (simp add: add_def Let_def orphan_processQueue)
next
  case Start
  assume o: "orphan t q"
  then have "orphan t (q\<lparr> paused := False \<rparr>)" by (simp add: orphan_def)
  then show ?thesis using Start o by (simp add: start_def orphan_processQueue)
next
  case (TaskSettles t' s)
  assume o: "orphan t q"
  then have 1: "orphan t (q\<lparr> inflight := removeAll t' (inflight q), timers := removeAll t' (timers q) \<rparr>)"
    by (simp add: orphan_def)
  have "t' \<in> set (awaiting q) \<Longrightarrow> t' \<noteq> t" using o by (auto simp: orphan_def)
  then show ?thesis using TaskSettles o 1
    by (auto simp: task_settles_def Let_def intro: orphan_runTask_resume)
next
  case (TimerFires t')
  assume o: "orphan t q"
  then have 1: "orphan t (q\<lparr> timers := removeAll t' (timers q) \<rparr>)"
    by (simp add: orphan_def)
  have "t' \<in> set (awaiting q) \<Longrightarrow> t' \<noteq> t" using o by (auto simp: orphan_def)
  then show ?thesis using TimerFires o 1
    by (auto simp: timer_fires_def Let_def intro: orphan_runTask_resume)
qed (auto simp: orphan_def pause_def clear_def onEmpty_def onIdle_def Let_def)

lemma orphan_exec: "orphan t q \<Longrightarrow> orphan t (exec as q)"
  by (induction as arbitrary: q) (auto intro: orphan_step)

lemma waiting_orphaned_by_clear:
  assumes "inv q" and "e \<in> set (taskQueue q)"
  shows "orphan (task e) (clear q)"
proof -
  have io: "ids_ok q" and ro: "running_ok q" and so: "settled_ok q"
    using assms(1) by (simp_all add: inv_def)
  have 1: "task e < nextId q" and 2: "task e \<notin> set (called q)"
    using io assms(2) by (auto simp: ids_ok_def list_all_iff)
  have 3: "task e \<notin> set (awaiting q)" using 2 awaiting_called [OF ro] by blast
  have 4: "settled q (task e) = None" using so 2 by (auto simp: settled_ok_def)
  show ?thesis using 1 2 3 4 by (simp add: orphan_def clear_def)
qed

subsection \<open>The order of calls\<close>

lemma before_append_old: "b \<in> set xs \<Longrightarrow> before a b (xs @ ys) = before a b xs"
  by (simp add: before_def takeWhile_append1)

lemma before_append_new: "b \<notin> set xs \<Longrightarrow> before a b (xs @ [b]) = (a \<in> set xs)"
  by (induction xs) (auto simp: before_def)

lemma in_order_emit [simp]: "in_order e1 e2 (emit n a q) = in_order e1 e2 q"
  by (simp add: in_order_def)

lemma in_orderD:
  assumes "in_order e1 e2 q"
  shows "task e2 < nextId q"
    and "sorted (map priority (taskQueue q))"
    and "\<And>e. e \<in> set (taskQueue q) \<Longrightarrow> task e = task e2 \<Longrightarrow> e = e2"
    and "e2 \<in> set (taskQueue q) \<Longrightarrow> task e1 \<in> set (called q) \<or> e1 \<in> set (taskQueue q)"
    and "task e2 \<in> set (called q) \<Longrightarrow> before (task e1) (task e2) (called q)"
  using assms unfolding in_order_def list_all_iff by blast+

lemma in_orderI:
  assumes "task e2 < nextId q"
    and "sorted (map priority (taskQueue q))"
    and "\<And>e. e \<in> set (taskQueue q) \<Longrightarrow> task e = task e2 \<Longrightarrow> e = e2"
    and "e2 \<in> set (taskQueue q) \<Longrightarrow> task e1 \<in> set (called q) \<or> e1 \<in> set (taskQueue q)"
    and "task e2 \<in> set (called q) \<Longrightarrow> before (task e1) (task e2) (called q)"
  shows "in_order e1 e2 q"
  using assms unfolding in_order_def list_all_iff by blast

lemma in_order_body:
  assumes "in_order e1 e2 q" and "priority e1 < priority e2" and "taskQueue q \<noteq> []"
  shows "in_order e1 e2 (processQueue_body q)"
proof (rule in_orderI)
  note D = in_orderD [OF assms(1)]
  obtain h rest where hr: "taskQueue q = h # rest"
    using assms(3) by (cases "taskQueue q") auto
  have h_in: "h \<in> set (taskQueue q)" and rest_in: "set rest \<subseteq> set (taskQueue q)"
    by (simp_all add: hr subset_insertI)
  have le: "priority h \<le> priority e" if "e \<in> set (taskQueue q)" for e
    using D(2) that unfolding hr by auto
  show "task e2 < nextId (processQueue_body q)" using D(1) by simp
  show "sorted (map priority (taskQueue (processQueue_body q)))"
    using D(2) by (simp add: hr)
  show "e = e2" if "e \<in> set (taskQueue (processQueue_body q))" and "task e = task e2" for e
  proof -
    have "e \<in> set (taskQueue q)" using that(1) rest_in by (auto simp: hr)
    then show ?thesis using D(3) that(2) by blast
  qed
  show "task e1 \<in> set (called (processQueue_body q)) \<or> e1 \<in> set (taskQueue (processQueue_body q))"
    if "e2 \<in> set (taskQueue (processQueue_body q))"
  proof -
    have "e2 \<in> set (taskQueue q)" using that rest_in by (auto simp: hr)
    then have "task e1 \<in> set (called q) \<or> e1 \<in> set (taskQueue q)" by (rule D(4))
    then consider "task e1 \<in> set (called q)" | "e1 = h" | "e1 \<in> set rest"
      unfolding hr by auto
    then show ?thesis by cases (simp_all add: hr)
  qed
  show "before (task e1) (task e2) (called (processQueue_body q))"
    if c: "task e2 \<in> set (called (processQueue_body q))"
  proof (cases "task e2 \<in> set (called q)")
    case True
    then show ?thesis using D(5) by (simp add: before_append_old)
  next
    case False
    then have "task h = task e2" using c by (simp add: hr)
    then have "h = e2" using D(3) h_in by blast
    have "e1 \<notin> set (taskQueue q)"
    proof
      assume "e1 \<in> set (taskQueue q)"
      then have "priority h \<le> priority e1" by (rule le)
      then show False using assms(2) \<open>h = e2\<close> by simp
    qed
    moreover have "e2 \<in> set (taskQueue q)" using h_in \<open>h = e2\<close> by simp
    ultimately have "task e1 \<in> set (called q)" using D(4) by blast
    then show ?thesis using False \<open>task h = task e2\<close>
      by (simp add: hr before_append_new [of "task e2" "called q" "task e1", symmetric]
            del: before_append_new)
  qed
qed

lemma in_order_processQueue:
  "in_order e1 e2 q \<Longrightarrow> priority e1 < priority e2 \<Longrightarrow> in_order e1 e2 (processQueue q)"
  by (rule processQueue_rule [where P = "in_order e1 e2"]) (simp_all add: in_order_body)

lemma in_order_runTask_resume:
  assumes "in_order e1 e2 q" and "priority e1 < priority e2"
  shows "in_order e1 e2 (runTask_resume t out q)"
  unfolding runTask_resume_def
proof (rule runTask_finally_rule [where P = "in_order e1 e2"])
  show "\<And>s. in_order e1 e2 s \<Longrightarrow> in_order e1 e2 (processQueue s)"
    using assms(2) by (simp add: in_order_processQueue)
  show "in_order e1 e2
     (runTask_outcome t out (q\<lparr>awaiting := removeAll t (awaiting q)\<rparr>)
      \<lparr>runningTasks := runningTasks (runTask_outcome t out (q\<lparr>awaiting := removeAll t (awaiting q)\<rparr>)) - 1\<rparr>)"
    using assms(1) by (simp add: in_order_def)
qed simp

lemma in_order_step:
  assumes "in_order e1 e2 q" and "priority e1 < priority e2"
  shows "in_order e1 e2 (step a q)"
proof (cases a)
  case (Add prio)
  have "in_order e1 e2 (push_entry (nextId q) prio (q\<lparr> nextId := Suc (nextId q) \<rparr>))"
    using assms(1)
    by (auto simp: in_order_def sorted_sort_key list_all_iff simp del: sort_key_simps)
  then show ?thesis using Add assms(2) by (simp add: add_def Let_def in_order_processQueue)
next
  case Start
  have "in_order e1 e2 (q\<lparr> paused := False \<rparr>)" using assms(1) by (simp add: in_order_def)
  then show ?thesis using Start assms by (simp add: start_def in_order_processQueue)
next
  case (TaskSettles t s)
  have "in_order e1 e2 (q\<lparr> inflight := removeAll t (inflight q), timers := removeAll t (timers q) \<rparr>)"
    using assms(1) by (simp add: in_order_def)
  then show ?thesis using TaskSettles assms
    by (auto simp: task_settles_def Let_def intro: in_order_runTask_resume)
next
  case (TimerFires t)
  have "in_order e1 e2 (q\<lparr> timers := removeAll t (timers q) \<rparr>)"
    using assms(1) by (simp add: in_order_def)
  then show ?thesis using TimerFires assms
    by (auto simp: timer_fires_def Let_def intro: in_order_runTask_resume)
qed (use assms(1) in \<open>auto simp: in_order_def pause_def clear_def onEmpty_def onIdle_def Let_def\<close>)

lemma in_order_exec:
  "in_order e1 e2 q \<Longrightarrow> priority e1 < priority e2 \<Longrightarrow> in_order e1 e2 (exec as q)"
  by (induction as arbitrary: q) (auto intro: in_order_step)

lemma in_order_waiting:
  assumes "ids_ok q" and "e1 \<in> set (taskQueue q)" and "e2 \<in> set (taskQueue q)"
  shows "in_order e1 e2 q"
proof -
  have "inj_on task (set (taskQueue q))" using assms(1) by (simp add: ids_ok_def distinct_map)
  then have "\<forall>e \<in> set (taskQueue q). task e = task e2 \<longrightarrow> e = e2"
    using assms(3) by (auto dest: inj_onD)
  moreover have "task e2 \<notin> set (called q)" and "task e2 < nextId q"
    using assms(1,3) by (auto simp: ids_ok_def list_all_iff)
  ultimately show ?thesis using assms by (simp add: in_order_def ids_ok_def list_all_iff)
qed

lemma head_minimal:
  "sorted (map priority (taskQueue q)) \<Longrightarrow> e \<in> set (taskQueue q) \<Longrightarrow>
   priority (hd (taskQueue q)) \<le> priority e"
  by (cases "taskQueue q") auto

subsection \<open>Settled promises\<close>

lemma exec_append: "exec (as @ bs) q = exec bs (exec as q)"
  by (induction as arbitrary: q) simp_all

lemma settled_runTask_finally [simp]: "settled (runTask_finally q) = settled q"
  by (simp add: runTask_finally_def Let_def)

lemma settled_runTask_resume:
  "settled (runTask_resume t out q) t' =
     (if t' = t \<and> settled q t = None then Some out else settled q t')"
  by (simp add: runTask_resume_def settled_settle)

lemma settled_add [simp]: "settled (snd (add prio q)) = settled q"
  by (simp add: add_def Let_def)

lemma settled_start [simp]: "settled (start q) = settled q"
  by (simp add: start_def)

lemma settled_stable_step: "settled q t = Some x \<Longrightarrow> settled (step a q) t = Some x"
  by (cases a)
     (auto simp: pause_def clear_def onEmpty_def onIdle_def Let_def task_settles_def
        timer_fires_def settled_runTask_resume)

lemma settled_stable: "settled q t = Some x \<Longrightarrow> settled (exec as q) t = Some x"
  by (induction as arbitrary: q) (simp_all add: settled_stable_step)

lemma inflight_processQueue: "set (inflight q) \<subseteq> set (inflight (processQueue q))"
  by (rule processQueue_rule [where P = "\<lambda>s. set (inflight q) \<subseteq> set (inflight s)"]) auto

lemma inflight_runTask_finally: "set (inflight q) \<subseteq> set (inflight (runTask_finally q))"
proof -
  have "set (inflight (q\<lparr>runningTasks := runningTasks q - 1\<rparr>))
          \<subseteq> set (inflight (processQueue (q\<lparr>runningTasks := runningTasks q - 1\<rparr>)))"
    by (rule inflight_processQueue)
  then show ?thesis by (simp add: runTask_finally_def Let_def)
qed

lemma inflight_runTask_resume: "set (inflight q) \<subseteq> set (inflight (runTask_resume t out q))"
  using inflight_runTask_finally [of "runTask_outcome t out (q\<lparr> awaiting := removeAll t (awaiting q) \<rparr>)"]
  by (simp add: runTask_resume_def)

lemma awaiting_pending:
  assumes "inv q" and "t \<in> set (awaiting q)"
  shows "settled q t = None"
  using assms by (auto simp: inv_def settled_ok_def)

lemma awaiting_timer:
  assumes "inv q" and "t \<in> set (awaiting q)" and "0 < timeout q"
  shows "t \<in> set (timers q)" and "t \<in> set (inflight q)"
  using assms by (auto simp: inv_def running_ok_def)

lemma timeout_exec [simp]: "timeout (exec as q) = timeout q"
proof (induction as arbitrary: q)
  case Nil
  show ?case by simp
next
  case (Cons a as)
  have "timeout (step a q) = timeout q"
    by (cases a)
       (simp_all add: add_def pause_def start_def clear_def onEmpty_def onIdle_def Let_def
          task_settles_def timer_fires_def runTask_resume_def runTask_finally_def)
  then show ?case using Cons by simp
qed

subsection \<open>What \<^verbatim>\<open>add\<close> starts\<close>

lemma drained_processQueue: "drained (processQueue q)"
  using processQueue_exit [of q] by (auto simp: drained_def)

lemma drained_emit [simp]: "drained (emit n a q) = drained q"
  by (simp add: drained_def)

lemma drained_runTask_finally: "drained (runTask_finally q)"
proof (cases "paused q")
  case True
  then show ?thesis by (simp add: runTask_finally_def Let_def drained_def)
next
  case False
  then show ?thesis by (simp add: runTask_finally_def Let_def drained_processQueue)
qed

lemma drained_step: "drained q \<Longrightarrow> drained (step a q)"
proof (cases a)
  case (Add prio)
  show ?thesis
  proof (cases "autoStart q \<and> \<not> paused q")
    case True
    then show ?thesis using Add by (simp add: add_def Let_def drained_processQueue)
  next
    case False
    then show ?thesis using Add by (auto simp: add_def Let_def drained_def)
  qed
next
  case Start
  assume "drained q"
  then show ?thesis using Start by (simp add: start_def drained_processQueue)
next
  case (TaskSettles t s)
  assume "drained q"
  then have "drained (q\<lparr> inflight := removeAll t (inflight q), timers := removeAll t (timers q) \<rparr>)"
    by (simp add: drained_def)
  then show ?thesis using TaskSettles \<open>drained q\<close>
    by (simp add: task_settles_def Let_def runTask_resume_def drained_runTask_finally)
next
  case (TimerFires t)
  assume "drained q"
  then have "drained (q\<lparr> timers := removeAll t (timers q) \<rparr>)"
    by (simp add: drained_def)
  then show ?thesis using TimerFires \<open>drained q\<close>
    by (simp add: timer_fires_def Let_def runTask_resume_def drained_runTask_finally)
qed (auto simp: drained_def pause_def clear_def onEmpty_def onIdle_def Let_def)

lemma drained_exec: "drained q \<Longrightarrow> drained (exec as q)"
  by (induction as arbitrary: q) (auto intro: drained_step)

lemma drained_reachable: "drained (exec as (the_queue opts))"
  by (rule drained_exec) (simp add: drained_def)

lemma autoStart_exec [simp]: "autoStart (exec as q) = autoStart q"
proof (induction as arbitrary: q)
  case Nil
  show ?case by simp
next
  case (Cons a as)
  have "autoStart (step a q) = autoStart q"
    by (cases a)
       (simp_all add: add_def pause_def start_def clear_def onEmpty_def onIdle_def Let_def
          task_settles_def timer_fires_def runTask_resume_def runTask_finally_def)
  then show ?case using Cons by simp
qed

lemma add_dispatches:
  assumes "autoStart q" and "\<not> paused q" and "less_limit (runningTasks q) (concurrency q)"
    and "taskQueue q = []"
  shows "taskQueue (snd (add prio q)) = []"
    and "called (snd (add prio q)) = called q @ [fst (add prio q)]"
    and "awaiting (snd (add prio q)) = awaiting q @ [fst (add prio q)]"
proof -
  let ?p = "push_entry (nextId q) prio (q\<lparr> nextId := Suc (nextId q) \<rparr>)"
  have tq: "taskQueue ?p = [\<lparr> task = nextId q, priority = (case prio of None \<Rightarrow> 0 | Some p \<Rightarrow> p) \<rparr>]"
    using assms(4) by simp
  have go: "\<not> paused ?p \<and> less_limit (runningTasks ?p) (concurrency ?p) \<and> taskQueue ?p \<noteq> []"
    using assms(2,3) tq by simp
  have "processQueue ?p = processQueue (processQueue_body ?p)"
    using go by (subst processQueue.simps) simp
  also have "\<dots> = processQueue_body ?p"
    by (rule processQueue_stuck) (simp add: assms(4))
  finally have eq: "snd (add prio q) = processQueue_body ?p"
    using assms(1,2) by (simp add: add_def Let_def)
  have f: "fst (add prio q) = nextId q" by (simp add: add_def Let_def)
  show "taskQueue (snd (add prio q)) = []" unfolding eq by (simp add: assms(4))
  show "called (snd (add prio q)) = called q @ [fst (add prio q)]"
    unfolding eq f by (simp add: assms(4))
  show "awaiting (snd (add prio q)) = awaiting q @ [fst (add prio q)]"
    unfolding eq f by (simp add: assms(4))
qed

lemma add_waits:
  assumes "\<not> (autoStart q \<and> \<not> paused q \<and> less_limit (runningTasks q) (concurrency q))"
  shows "called (snd (add prio q)) = called q"
    and "fst (add prio q) \<in> set (map task (taskQueue (snd (add prio q))))"
proof -
  let ?p = "push_entry (nextId q) prio (q\<lparr> nextId := Suc (nextId q) \<rparr>)"
  have eq: "snd (add prio q) = ?p"
  proof (cases "autoStart q \<and> \<not> paused q")
    case True
    then have "\<not> less_limit (runningTasks ?p) (concurrency ?p)" using assms by simp
    then have "processQueue ?p = ?p" by (simp add: processQueue_stuck)
    then show ?thesis by (simp add: add_def Let_def)
  next
    case False
    then show ?thesis by (auto simp: add_def Let_def)
  qed
  have f: "fst (add prio q) = nextId q" by (simp add: add_def Let_def)
  show "called (snd (add prio q)) = called q" unfolding eq by simp
  show "fst (add prio q) \<in> set (map task (taskQueue (snd (add prio q))))"
    unfolding eq f by (simp del: sort_key_simps)
qed

subsection \<open>A listener for \<^verbatim>\<open>"empty"\<close> is never called\<close>

lemma listener_fields [simp]:
  "resolvedVoid (processQueue_body q) = resolvedVoid (emit E_active NoArg q)"
  "onceListeners (processQueue_body q) = onceListeners (emit E_active NoArg q)"
  "resolvedVoid (push_entry fut prio q) = resolvedVoid (emit E_add NoArg q)"
  "onceListeners (push_entry fut prio q) = onceListeners (emit E_add NoArg q)"
  "resolvedVoid (runTask_outcome t out q) =
     resolvedVoid (emit (case out of Fulfilled v \<Rightarrow> E_completed | Rejected err \<Rightarrow> E_error) NoArg q)"
  "onceListeners (runTask_outcome t out q) =
     onceListeners (emit (case out of Fulfilled v \<Rightarrow> E_completed | Rejected err \<Rightarrow> E_error) NoArg q)"
  by (simp_all add: processQueue_body_def runTask_def Let_def withTimeout_def call_task_def
        emit_def push_entry_def runTask_outcome_def split: outcome.splits)

lemma listeners_sat_cong:
  "nextId a = nextId b \<Longrightarrow> resolvedVoid a = resolvedVoid b \<Longrightarrow>
   onceListeners a = onceListeners b \<Longrightarrow> listeners_sat R a = listeners_sat R b"
  by (simp add: listeners_sat_def)

lemma listeners_sat_emit:
  "emit_closed R \<Longrightarrow> n \<noteq> E_empty \<Longrightarrow> listeners_sat R q \<Longrightarrow> listeners_sat R (emit n a q)"
  by (simp add: listeners_sat_def emit_closed_def emit_def)

lemma listeners_sat_body:
  assumes "emit_closed R" and "listeners_sat R q"
  shows "listeners_sat R (processQueue_body q)"
proof -
  have "listeners_sat R (emit E_active NoArg q)"
    using assms by (simp add: listeners_sat_emit)
  moreover have "listeners_sat R (processQueue_body q) = listeners_sat R (emit E_active NoArg q)"
    by (rule listeners_sat_cong) simp_all
  ultimately show ?thesis by blast
qed

lemma listeners_sat_processQueue:
  "emit_closed R \<Longrightarrow> listeners_sat R q \<Longrightarrow> listeners_sat R (processQueue q)"
  by (rule processQueue_rule [where P = "listeners_sat R"]) (simp_all add: listeners_sat_body)

lemma listeners_sat_push_entry:
  assumes "emit_closed R" and "fresh_closed R" and "listeners_sat R q"
  shows "listeners_sat R (push_entry (nextId q) prio (q\<lparr> nextId := Suc (nextId q) \<rparr>))"
proof -
  let ?q = "q\<lparr> nextId := Suc (nextId q) \<rparr>"
  have "listeners_sat R ?q"
    using assms(2,3) by (simp add: listeners_sat_def fresh_closed_def)
  then have "listeners_sat R (emit E_add NoArg ?q)"
    using assms(1) by (simp add: listeners_sat_emit)
  moreover have "listeners_sat R (push_entry (nextId q) prio ?q)
                   = listeners_sat R (emit E_add NoArg ?q)"
    by (rule listeners_sat_cong) simp_all
  ultimately show ?thesis by blast
qed

lemma listeners_sat_runTask_resume:
  assumes "emit_closed R" and "listeners_sat R q"
  shows "listeners_sat R (runTask_resume t out q)"
  unfolding runTask_resume_def
proof (rule runTask_finally_rule [where P = "listeners_sat R"])
  let ?n = "case out of Fulfilled v \<Rightarrow> E_completed | Rejected err \<Rightarrow> E_error"
  let ?o = "runTask_outcome t out (q\<lparr> awaiting := removeAll t (awaiting q) \<rparr>)"
  have "?n \<noteq> E_empty" by (cases out) simp_all
  then have "listeners_sat R (emit ?n NoArg q)" using assms by (simp add: listeners_sat_emit)
  moreover have "listeners_sat R (?o\<lparr> runningTasks := runningTasks ?o - 1 \<rparr>)
                   = listeners_sat R (emit ?n NoArg q)"
    by (rule listeners_sat_cong) (simp_all add: emit_def)
  ultimately show "listeners_sat R (?o\<lparr> runningTasks := runningTasks ?o - 1 \<rparr>)"
    by blast
qed (simp_all add: assms(1) listeners_sat_emit listeners_sat_processQueue)

lemma listeners_sat_step:
  assumes "emit_closed R" and "fresh_closed R" and "listeners_sat R q"
  shows "listeners_sat R (step a q)"
proof (cases a)
  case (Add prio)
  then show ?thesis using assms
    by (simp add: add_def Let_def listeners_sat_push_entry listeners_sat_processQueue)
next
  case Start
  have "listeners_sat R (q\<lparr> paused := False \<rparr>)" using assms(3) by (simp add: listeners_sat_def)
  then show ?thesis using Start assms by (simp add: start_def listeners_sat_processQueue)
next
  case (TaskSettles t s)
  have "listeners_sat R (q\<lparr> inflight := removeAll t (inflight q), timers := removeAll t (timers q) \<rparr>)"
    using assms(3) by (simp add: listeners_sat_def)
  then show ?thesis using TaskSettles assms
    by (simp add: task_settles_def Let_def listeners_sat_runTask_resume)
next
  case (TimerFires t)
  have "listeners_sat R (q\<lparr> timers := removeAll t (timers q) \<rparr>)"
    using assms(3) by (simp add: listeners_sat_def)
  then show ?thesis using TimerFires assms
    by (simp add: timer_fires_def Let_def listeners_sat_runTask_resume)
next
  case Pause
  then show ?thesis using assms(3) by (simp add: pause_def listeners_sat_def)
next
  case Clear
  then show ?thesis using assms(3) by (simp add: clear_def listeners_sat_def)
next
  case OnEmpty
  then show ?thesis using assms(2,3)
    by (simp add: onEmpty_def Let_def listeners_sat_def fresh_closed_def)
next
  case OnIdle
  then show ?thesis using assms(2,3)
    by (simp add: onIdle_def Let_def listeners_sat_def fresh_closed_def)
qed

lemma listeners_sat_exec:
  "emit_closed R \<Longrightarrow> fresh_closed R \<Longrightarrow> listeners_sat R q \<Longrightarrow> listeners_sat R (exec as q)"
  by (induction as arbitrary: q) (simp_all add: listeners_sat_step)

lemma void_ok_closed: "emit_closed void_ok" "fresh_closed void_ok"
  by (auto simp: emit_closed_def fresh_closed_def void_ok_def list_all_iff intro: less_SucI)

lemma unheard_closed: "emit_closed (unheard p)" "fresh_closed (unheard p)"
  by (auto simp: emit_closed_def fresh_closed_def unheard_def list_all_iff intro: less_SucI)

lemma void_ok_reachable: "listeners_sat void_ok (exec as (the_queue opts))"
  by (intro listeners_sat_exec void_ok_closed) (simp add: listeners_sat_def void_ok_def)

lemma unheard_onEmpty:
  assumes "listeners_sat void_ok q" and "taskQueue q \<noteq> []"
  shows "listeners_sat (unheard (fst (onEmpty q))) (snd (onEmpty q))"
proof -
  have lt: "p < nextId q" if "p \<in> set (resolvedVoid q)" for p
    using assms(1) that by (simp add: listeners_sat_def void_ok_def list_all_iff)
  have ll: "snd l < nextId q" if "l \<in> set (onceListeners q)" for l
    using assms(1) that by (simp add: listeners_sat_def void_ok_def list_all_iff)
  have 1: "nextId q \<notin> set (resolvedVoid q)" using lt [of "nextId q"] by auto
  have 2: "\<forall>l \<in> set (onceListeners q). snd l \<noteq> nextId q" using ll by fastforce
  show ?thesis
    using 1 2 assms(2)
    by (simp add: listeners_sat_def unheard_def onEmpty_def Let_def list_all_iff)
qed

lemma onEmpty_never_resolves:
  assumes "taskQueue (exec as (the_queue opts)) \<noteq> []"
  shows "fst (onEmpty (exec as (the_queue opts)))
           \<notin> set (resolvedVoid (exec bs (snd (onEmpty (exec as (the_queue opts))))))"
proof -
  have "listeners_sat (unheard (fst (onEmpty (exec as (the_queue opts)))))
          (exec bs (snd (onEmpty (exec as (the_queue opts)))))"
    by (intro listeners_sat_exec unheard_closed unheard_onEmpty void_ok_reachable assms)
  then show ?thesis by (simp add: listeners_sat_def unheard_def)
qed

lemma onEmpty_resolves_at_once:
  "taskQueue q = [] \<Longrightarrow> fst (onEmpty q) \<in> set (resolvedVoid (snd (onEmpty q)))"
  by (simp add: onEmpty_def Let_def)

section \<open>Properties\<close>

text \<open>
  C1 as stated fails when a timeout is configured: a task whose timer has fired is no
  longer counted, but it is not cancelled and keeps running. Here the concurrency is 1 and
  the timeout 50; four tasks are added and the timers of the first three fire, each
  letting the next task start. The counter \<^verbatim>\<open>runningTasks\<close> is 1, and four tasks are in
  flight at the same time.
\<close>

theorem tasks_in_flight_exceed_concurrency:
  "concurrency (exec [Add None, Add None, Add None, Add None, TimerFires 0, TimerFires 1, TimerFires 2]
      (the_queue \<lparr> opt_concurrency = Some (Finite 1), opt_timeout = Some 50,
                     opt_throwOnTimeout = None, opt_autoStart = None \<rparr> :: (nat, nat) TaskQueue)) = Finite 1 \<and>
   runningTasks (exec [Add None, Add None, Add None, Add None, TimerFires 0, TimerFires 1, TimerFires 2]
      (the_queue \<lparr> opt_concurrency = Some (Finite 1), opt_timeout = Some 50,
                     opt_throwOnTimeout = None, opt_autoStart = None \<rparr> :: (nat, nat) TaskQueue)) = 1 \<and>
   inflight (exec [Add None, Add None, Add None, Add None, TimerFires 0, TimerFires 1, TimerFires 2]
      (the_queue \<lparr> opt_concurrency = Some (Finite 1), opt_timeout = Some 50,
                     opt_throwOnTimeout = None, opt_autoStart = None \<rparr> :: (nat, nat) TaskQueue)) = [0, 1, 2, 3] \<and>
   \<not> int (length (inflight (exec [Add None, Add None, Add None, Add None,
                                   TimerFires 0, TimerFires 1, TimerFires 2]
      (the_queue \<lparr> opt_concurrency = Some (Finite 1), opt_timeout = Some 50,
                     opt_throwOnTimeout = None, opt_autoStart = None \<rparr> :: (nat, nat) TaskQueue)))) \<le> 1"
  by code_simp

text \<open>
  C1, as amended. Let the queue be constructed with a finite concurrency \<open>n\<close>, a whole
  number that is not negative. After any sequence of method calls, task settlements and
  timer firings, the counter \<^verbatim>\<open>runningTasks\<close> never exceeds \<open>n\<close>. The counter is the number
  of tasks that \<^verbatim>\<open>runTask\<close> still waits for; each of them is in flight, and no task is in
  flight twice. When no timeout is configured, these are all the tasks in flight: the
  number of tasks running simultaneously is the counter and never exceeds \<open>n\<close>. (With a
  timeout, the tasks whose timer has fired run on uncounted, as above. For a concurrency
  \<open>c\<close> that is negative or not whole, which the constructor accepts as well, the bound of
  the counter is \<open>max 0 \<lceil>c\<rceil>\<close>: lemma \<open>bounded_exec\<close>.)
\<close>

theorem runningTasks_bounded:
  assumes "opt_concurrency opts = Some (Finite (real_of_int n))" and "0 \<le> n"
  shows "runningTasks (exec as (the_queue opts)) \<le> n \<and>
         runningTasks (exec as (the_queue opts)) = int (length (awaiting (exec as (the_queue opts)))) \<and>
         set (awaiting (exec as (the_queue opts))) \<subseteq> set (inflight (exec as (the_queue opts))) \<and>
         distinct (inflight (exec as (the_queue opts))) \<and>
         (timeout (exec as (the_queue opts)) \<le> 0 \<longrightarrow>
            int (length (inflight (exec as (the_queue opts)))) = runningTasks (exec as (the_queue opts)) \<and>
            int (length (inflight (exec as (the_queue opts)))) \<le> n)"
proof -
  let ?q = "exec as (the_queue opts)"
  have "bounded (real_of_int n) (the_queue opts)" using assms(1) by (simp add: bounded_def)
  then have "bounded (real_of_int n) ?q" by (rule bounded_exec)
  then have b: "runningTasks ?q \<le> n" using assms(2) by (simp add: bounded_def)
  have ro: "running_ok ?q"
    using inv_reachable [of as opts] by (simp add: inv_def)
  have c: "runningTasks ?q = int (length (awaiting ?q))"
    and d: "distinct (inflight ?q)"
    using ro by (simp_all add: running_ok_def)
  have s: "set (awaiting ?q) \<subseteq> set (inflight ?q)" using ro by (rule awaiting_inflight)
  have f: "int (length (inflight ?q)) = runningTasks ?q" if "timeout ?q \<le> 0"
    using ro that by (rule inflight_count)
  show ?thesis using b c d s f by auto
qed

text \<open>
  The witness: concurrency 2, no timeout, three tasks added. Two are in flight and
  counted, the third waits.
\<close>

theorem runningTasks_bounded_witness:
  "opt_concurrency \<lparr> opt_concurrency = Some (Finite 2), opt_timeout = None,
                     opt_throwOnTimeout = None, opt_autoStart = None \<rparr> = Some (Finite (real_of_int 2)) \<and> (0::int) \<le> 2 \<and>
   timeout (exec [Add None, Add (Some 1), Add None] (the_queue \<lparr> opt_concurrency = Some (Finite 2), opt_timeout = None,
                     opt_throwOnTimeout = None, opt_autoStart = None \<rparr> :: (nat, nat) TaskQueue)) \<le> 0 \<and>
   runningTasks (exec [Add None, Add (Some 1), Add None]
     (the_queue \<lparr> opt_concurrency = Some (Finite 2), opt_timeout = None,
                     opt_throwOnTimeout = None, opt_autoStart = None \<rparr> :: (nat, nat) TaskQueue)) \<le> 2 \<and>
   int (length (inflight (exec [Add None, Add (Some 1), Add None]
     (the_queue \<lparr> opt_concurrency = Some (Finite 2), opt_timeout = None,
                     opt_throwOnTimeout = None, opt_autoStart = None \<rparr> :: (nat, nat) TaskQueue)))) \<le> 2 \<and>
   inflight (exec [Add None, Add (Some 1), Add None]
     (the_queue \<lparr> opt_concurrency = Some (Finite 2), opt_timeout = None,
                     opt_throwOnTimeout = None, opt_autoStart = None \<rparr> :: (nat, nat) TaskQueue)) = [0, 1]"
proof -
  let ?q = "exec [Add None, Add (Some 1), Add None] (the_queue \<lparr> opt_concurrency = Some (Finite 2), opt_timeout = None,
                     opt_throwOnTimeout = None, opt_autoStart = None \<rparr> :: (nat, nat) TaskQueue)"
  have h1: "opt_concurrency \<lparr> opt_concurrency = Some (Finite 2), opt_timeout = None,
                     opt_throwOnTimeout = None, opt_autoStart = None \<rparr> = Some (Finite (real_of_int 2))" by simp
  have h2: "(0::int) \<le> 2" by simp
  have t: "timeout ?q \<le> 0" by code_simp
  have i: "inflight ?q = [0, 1]" by code_simp
  have "runningTasks ?q \<le> 2" and "int (length (inflight ?q)) \<le> 2"
    using runningTasks_bounded [OF h1 h2, of "[Add None, Add (Some 1), Add None]"] t by blast+
  then show ?thesis using h1 h2 t i by blast
qed
text \<open>
  C9. Calling \<^verbatim>\<open>start()\<close> on a queue that is not paused is a no-op: the whole state,
  and so the paused flag, the waiting sequence, the running count and the tasks called,
  is unchanged.
\<close>

theorem start_not_paused_noop:
  "\<not> paused q \<Longrightarrow> start q = q"
  by (simp add: start_def)

text \<open>
  The witness: a queue constructed with \<^verbatim>\<open>autoStart: false\<close>, started, with one task
  added since. It is not paused, a task is waiting and nothing runs; \<^verbatim>\<open>start()\<close> still
  changes nothing.
\<close>

theorem start_not_paused_noop_witness:
  "\<not> paused (exec [Start, Add None]
      (the_queue \<lparr> opt_concurrency = None, opt_timeout = None,
                   opt_throwOnTimeout = None, opt_autoStart = Some False \<rparr> :: (nat, nat) TaskQueue)) \<and>
   start (exec [Start, Add None]
      (the_queue \<lparr> opt_concurrency = None, opt_timeout = None,
                   opt_throwOnTimeout = None, opt_autoStart = Some False \<rparr> :: (nat, nat) TaskQueue)) =
   exec [Start, Add None]
      (the_queue \<lparr> opt_concurrency = None, opt_timeout = None,
                   opt_throwOnTimeout = None, opt_autoStart = Some False \<rparr>)"
  using start_not_paused_noop [of "exec [Start, Add None]
      (the_queue \<lparr> opt_concurrency = None, opt_timeout = None,
                   opt_throwOnTimeout = None, opt_autoStart = Some False \<rparr> :: (nat, nat) TaskQueue)"]
  by (simp add: run_defs)

text \<open>
  C10. For a queue constructed with a concurrency \<open>c \<le> 0\<close>, in every state it reaches
  (under any sequence of method calls, also \<^verbatim>\<open>start\<close> and \<^verbatim>\<open>pause\<close>): \<^verbatim>\<open>add\<close> accepts
  a task, which lengthens the waiting sequence by one and is in it; no task has been
  called; \<^verbatim>\<open>runningTasks\<close> is 0; every promise returned by \<^verbatim>\<open>add\<close> is pending.
\<close>

theorem nonpositive_concurrency_never_starts:
  assumes "opt_concurrency opts = Some (Finite c)" and "c \<le> 0"
  shows "length (taskQueue (snd (add prio (exec as (the_queue opts))))) =
           Suc (length (taskQueue (exec as (the_queue opts)))) \<and>
         fst (add prio (exec as (the_queue opts)))
           \<in> set (map task (taskQueue (snd (add prio (exec as (the_queue opts)))))) \<and>
         called (exec as (the_queue opts)) = [] \<and>
         runningTasks (exec as (the_queue opts)) = 0 \<and>
         (\<forall>t. settled (exec as (the_queue opts)) t = None)"
proof -
  have "dormant (the_queue opts)" using assms by (simp add: dormant_def)
  then have d: "dormant (exec as (the_queue opts))" by (rule dormant_exec)
  show ?thesis
    using d length_taskQueue_add_dormant [OF d, of prio] by (simp add: dormant_def)
qed

theorem nonpositive_concurrency_never_starts_witness:
  "opt_concurrency \<lparr> opt_concurrency = Some (Finite 0), opt_timeout = None,
                     opt_throwOnTimeout = None, opt_autoStart = None \<rparr> = Some (Finite 0) \<and>
   (0::real) \<le> 0 \<and>
   length (taskQueue (snd (add (Some 1) (exec [Add None, Pause, Start, TaskSettles 0 (Resolves 5)]
     (the_queue \<lparr> opt_concurrency = Some (Finite 0), opt_timeout = None,
                  opt_throwOnTimeout = None, opt_autoStart = None \<rparr> :: (nat, nat) TaskQueue))))) = 2 \<and>
   called (exec [Add None, Pause, Start, TaskSettles 0 (Resolves 5)]
     (the_queue \<lparr> opt_concurrency = Some (Finite 0), opt_timeout = None,
                  opt_throwOnTimeout = None, opt_autoStart = None \<rparr> :: (nat, nat) TaskQueue)) = [] \<and>
   settled (exec [Add None, Pause, Start, TaskSettles 0 (Resolves 5)]
     (the_queue \<lparr> opt_concurrency = Some (Finite 0), opt_timeout = None,
                  opt_throwOnTimeout = None, opt_autoStart = None \<rparr> :: (nat, nat) TaskQueue)) 0 = None"
  using nonpositive_concurrency_never_starts [of "\<lparr> opt_concurrency = Some (Finite 0), opt_timeout = None,
                     opt_throwOnTimeout = None, opt_autoStart = None \<rparr>" 0 "Some 1"
                     "[Add None, Pause, Start, TaskSettles 0 (Resolves 5)]"]
  by (simp add: run_defs)

text \<open>
  C8. In every state the queue reaches, \<^verbatim>\<open>clear()\<close> empties the waiting sequence and
  leaves the promises, the running count, the paused flag and the running tasks (the
  suspended invocations of \<^verbatim>\<open>runTask\<close>, the tasks in flight, their timers, the calls
  made) as they are. The promise of every discarded entry is pending at that moment and
  stays pending whatever happens afterwards; its task is never called.
\<close>

theorem clear_discards_without_settling:
  "taskQueue (clear (exec as (the_queue opts))) = [] \<and>
   settled (clear (exec as (the_queue opts))) = settled (exec as (the_queue opts)) \<and>
   runningTasks (clear (exec as (the_queue opts))) = runningTasks (exec as (the_queue opts)) \<and>
   paused (clear (exec as (the_queue opts))) = paused (exec as (the_queue opts)) \<and>
   awaiting (clear (exec as (the_queue opts))) = awaiting (exec as (the_queue opts)) \<and>
   inflight (clear (exec as (the_queue opts))) = inflight (exec as (the_queue opts)) \<and>
   timers (clear (exec as (the_queue opts))) = timers (exec as (the_queue opts)) \<and>
   called (clear (exec as (the_queue opts))) = called (exec as (the_queue opts)) \<and>
   (\<forall>e \<in> set (taskQueue (exec as (the_queue opts))). \<forall>bs.
      settled (exec as (the_queue opts)) (task e) = None \<and>
      settled (exec bs (clear (exec as (the_queue opts)))) (task e) = None \<and>
      task e \<notin> set (called (exec bs (clear (exec as (the_queue opts))))))"
proof -
  have "orphan (task e) (exec bs (clear (exec as (the_queue opts))))"
    if "e \<in> set (taskQueue (exec as (the_queue opts)))" for e bs
    using that by (intro orphan_exec waiting_orphaned_by_clear inv_reachable)
  moreover have "settled (exec as (the_queue opts)) (task e) = None"
    if "e \<in> set (taskQueue (exec as (the_queue opts)))" for e
    using waiting_orphaned_by_clear [OF inv_reachable that] by (simp add: orphan_def clear_def)
  ultimately show ?thesis by (simp add: clear_def orphan_def)
qed

text \<open>
  The witness: three tasks wait and none runs when \<^verbatim>\<open>clear()\<close> is called; afterwards
  the queue is started, a fourth task is added, runs and resolves. The promise of the
  discarded task 1 is still pending.
\<close>

theorem clear_discards_without_settling_witness:
  "\<lparr> task = 1, priority = 1 \<rparr> \<in> set (taskQueue (exec [Add None, Add (Some 1), Add None]
      (the_queue \<lparr> opt_concurrency = None, opt_timeout = None,
                   opt_throwOnTimeout = None, opt_autoStart = Some False \<rparr> :: (nat, nat) TaskQueue))) \<and>
   taskQueue (clear (exec [Add None, Add (Some 1), Add None]
      (the_queue \<lparr> opt_concurrency = None, opt_timeout = None,
                   opt_throwOnTimeout = None, opt_autoStart = Some False \<rparr> :: (nat, nat) TaskQueue))) = [] \<and>
   settled (exec [Start, Add None, Pause, Start, TaskSettles 3 (Resolves 7)]
     (clear (exec [Add None, Add (Some 1), Add None]
      (the_queue \<lparr> opt_concurrency = None, opt_timeout = None,
                   opt_throwOnTimeout = None, opt_autoStart = Some False \<rparr> :: (nat, nat) TaskQueue))))
     (task \<lparr> task = 1, priority = 1 \<rparr>) = None \<and>
   settled (exec [Start, Add None, Pause, Start, TaskSettles 3 (Resolves 7)]
     (clear (exec [Add None, Add (Some 1), Add None]
      (the_queue \<lparr> opt_concurrency = None, opt_timeout = None,
                   opt_throwOnTimeout = None, opt_autoStart = Some False \<rparr> :: (nat, nat) TaskQueue)))) 3
     = Some (Fulfilled 7)"
proof -
  let ?Q = "exec [Add None, Add (Some 1), Add None]
      (the_queue \<lparr> opt_concurrency = None, opt_timeout = None,
                   opt_throwOnTimeout = None, opt_autoStart = Some False \<rparr> :: (nat, nat) TaskQueue)"
  let ?bs = "[Start, Add None, Pause, Start, TaskSettles 3 (Resolves 7)] :: (nat, nat) action list"
  note c8 = clear_discards_without_settling [of "[Add None, Add (Some 1), Add None]"
      "\<lparr> opt_concurrency = None, opt_timeout = None,
         opt_throwOnTimeout = None, opt_autoStart = Some False \<rparr>"]
  have m: "\<lparr> task = 1, priority = 1 \<rparr> \<in> set (taskQueue ?Q)"
    by code_simp
  have e: "taskQueue (clear ?Q) = []"
    using c8 by blast
  have p: "settled (exec ?bs (clear ?Q)) (task \<lparr> task = 1, priority = 1 \<rparr>) = None"
    using c8 m by blast
  have r: "settled (exec ?bs (clear ?Q)) 3 = Some (Fulfilled 7)"
    by code_simp
  show ?thesis using m e p r by blast
qed

text \<open>
  C2. Let two entries wait in a state the queue has reached, the first with a strictly
  smaller priority value than the second. Whatever happens afterwards, if the task of the
  second is called, the task of the first has been called before it. And a dispatch, which
  is one run of the loop body of \<^verbatim>\<open>processQueue\<close>, removes the first waiting entry and
  calls its task; the priority value of that entry is minimal among the waiting entries.
\<close>

theorem lower_priority_value_starts_first:
  assumes "e1 \<in> set (taskQueue (exec as (the_queue opts)))"
    and "e2 \<in> set (taskQueue (exec as (the_queue opts)))"
    and "priority e1 < priority e2"
  shows "(task e2 \<in> set (called (exec bs (exec as (the_queue opts)))) \<longrightarrow>
            before (task e1) (task e2) (called (exec bs (exec as (the_queue opts))))) \<and>
         taskQueue (processQueue_body (exec as (the_queue opts))) = tl (taskQueue (exec as (the_queue opts))) \<and>
         called (processQueue_body (exec as (the_queue opts))) =
           called (exec as (the_queue opts)) @ [task (hd (taskQueue (exec as (the_queue opts))))] \<and>
         (\<forall>e \<in> set (taskQueue (exec as (the_queue opts))).
            priority (hd (taskQueue (exec as (the_queue opts)))) \<le> priority e)"
proof -
  have io: "ids_ok (exec as (the_queue opts))"
    using inv_reachable [of as opts] by (simp add: inv_def)
  have "in_order e1 e2 (exec bs (exec as (the_queue opts)))"
    by (intro in_order_exec in_order_waiting io assms)
  moreover have "\<forall>e \<in> set (taskQueue (exec as (the_queue opts))).
            priority (hd (taskQueue (exec as (the_queue opts)))) \<le> priority e"
    using io by (auto simp: ids_ok_def intro: head_minimal)
  ultimately show ?thesis by (simp add: in_order_def)
qed

text \<open>
  The witness: concurrency 2, four tasks with priorities 2, 1, 2, 1 added to a queue that
  is not started yet. After \<^verbatim>\<open>start()\<close> and the settlement of task 1, the calls were
  1, 3, 0: task 1 (priority 1) before task 0 (priority 2).
\<close>

theorem lower_priority_value_starts_first_witness:
  "\<lparr> task = 1, priority = 1 \<rparr> \<in> set (taskQueue
      (exec [Add (Some 2), Add (Some 1), Add (Some 2), Add (Some 1)]
        (the_queue \<lparr> opt_concurrency = Some (Finite 2), opt_timeout = None,
                     opt_throwOnTimeout = None, opt_autoStart = Some False \<rparr> :: (nat, nat) TaskQueue))) \<and>
   \<lparr> task = 0, priority = 2 \<rparr> \<in> set (taskQueue
      (exec [Add (Some 2), Add (Some 1), Add (Some 2), Add (Some 1)]
        (the_queue \<lparr> opt_concurrency = Some (Finite 2), opt_timeout = None,
                     opt_throwOnTimeout = None, opt_autoStart = Some False \<rparr> :: (nat, nat) TaskQueue))) \<and>
   priority \<lparr> task = 1, priority = 1 \<rparr> < priority \<lparr> task = 0, priority = 2 \<rparr> \<and>
   called (exec [Start, TaskSettles 1 (Resolves 7)]
      (exec [Add (Some 2), Add (Some 1), Add (Some 2), Add (Some 1)]
        (the_queue \<lparr> opt_concurrency = Some (Finite 2), opt_timeout = None,
                     opt_throwOnTimeout = None, opt_autoStart = Some False \<rparr> :: (nat, nat) TaskQueue)))
     = [1, 3, 0] \<and>
   before (task \<lparr> task = 1, priority = 1 \<rparr>) (task \<lparr> task = 0, priority = 2 \<rparr>)
     (called (exec [Start, TaskSettles 1 (Resolves 7)]
      (exec [Add (Some 2), Add (Some 1), Add (Some 2), Add (Some 1)]
        (the_queue \<lparr> opt_concurrency = Some (Finite 2), opt_timeout = None,
                     opt_throwOnTimeout = None, opt_autoStart = Some False \<rparr> :: (nat, nat) TaskQueue))))"
proof -
  let ?Q = "exec [Add (Some 2), Add (Some 1), Add (Some 2), Add (Some 1)]
        (the_queue \<lparr> opt_concurrency = Some (Finite 2), opt_timeout = None,
                     opt_throwOnTimeout = None, opt_autoStart = Some False \<rparr> :: (nat, nat) TaskQueue)"
  let ?bs = "[Start, TaskSettles 1 (Resolves 7)] :: (nat, nat) action list"
  have h1: "\<lparr> task = 1, priority = 1 \<rparr> \<in> set (taskQueue ?Q)" by code_simp
  have h2: "\<lparr> task = 0, priority = 2 \<rparr> \<in> set (taskQueue ?Q)" by code_simp
  have h3: "priority \<lparr> task = 1, priority = 1 \<rparr> < priority \<lparr> task = 0, priority = 2 \<rparr>"
    by simp
  have c: "called (exec ?bs ?Q) = [1, 3, 0]" by code_simp
  then have "task \<lparr> task = 0, priority = 2 \<rparr> \<in> set (called (exec ?bs ?Q))" by simp
  then have "before (task \<lparr> task = 1, priority = 1 \<rparr>) (task \<lparr> task = 0, priority = 2 \<rparr>)
     (called (exec ?bs ?Q))"
    using lower_priority_value_starts_first [OF h1 h2 h3, of ?bs] by blast
  then show ?thesis using h1 h2 h3 c by blast
qed

text \<open>
  C4. Let the queue be constructed with a timeout \<open>ms > 0\<close> and let \<^verbatim>\<open>runTask\<close> wait for
  task \<open>t\<close> (the task was submitted and called and has not settled). Then the promise that
  \<^verbatim>\<open>add\<close> returned for \<open>t\<close> is pending and the timer of \<open>t\<close> is set. When the timer fires
  first, that promise rejects with \<open>TimeoutError\<close>. The task is not cancelled: it is still
  in flight. When it settles later, with whatever result \<open>s\<close>, the only effect is that it
  leaves the tasks in flight: no promise changes and no event is emitted. The promise stays
  rejected with \<open>TimeoutError\<close> whatever happens afterwards. (Time is not modelled: "the
  deadline elapses before the task settles" is the timer firing while the task is in
  flight.)
\<close>

theorem timeout_rejects_and_discards:
  assumes "opt_timeout opts = Some ms" and "0 < ms"
    and "t \<in> set (awaiting (exec as (the_queue opts)))"
  shows "settled (exec as (the_queue opts)) t = None \<and>
         t \<in> set (timers (exec as (the_queue opts))) \<and>
         settled (timer_fires t (exec as (the_queue opts))) t = Some (Rejected TimeoutError) \<and>
         t \<in> set (inflight (timer_fires t (exec as (the_queue opts)))) \<and>
         task_settles t s (timer_fires t (exec as (the_queue opts))) =
           (timer_fires t (exec as (the_queue opts)))
             \<lparr> inflight := removeAll t (inflight (timer_fires t (exec as (the_queue opts)))),
               timers := removeAll t (timers (timer_fires t (exec as (the_queue opts)))) \<rparr> \<and>
         (\<forall>bs. settled (exec bs (timer_fires t (exec as (the_queue opts)))) t
                 = Some (Rejected TimeoutError))"
proof -
  let ?q = "exec as (the_queue opts)"
  let ?q' = "timer_fires t ?q"
  have i: "inv ?q" by (rule inv_reachable)
  have pos: "0 < timeout ?q" using assms(1,2) by simp
  have p: "settled ?q t = None" using i assms(3) by (rule awaiting_pending)
  have tm: "t \<in> set (timers ?q)" and fl: "t \<in> set (inflight ?q)"
    using awaiting_timer [OF i assms(3) pos] by simp_all
  have eq: "?q' = runTask_resume t (Rejected TimeoutError) (?q\<lparr> timers := removeAll t (timers ?q) \<rparr>)"
    using tm assms(3) by (simp add: timer_fires_def Let_def)
  have r: "settled ?q' t = Some (Rejected TimeoutError)"
    using p by (simp add: eq settled_runTask_resume)
  have fl': "t \<in> set (inflight ?q')"
    using fl inflight_runTask_resume [of "?q\<lparr> timers := removeAll t (timers ?q) \<rparr>" t "Rejected TimeoutError"]
    unfolding eq by auto
  have "?q' = exec (as @ [TimerFires t]) (the_queue opts)" by (simp add: exec_append)
  then have i': "inv ?q'" using inv_reachable [of "as @ [TimerFires t]" opts] by simp
  have na: "t \<notin> set (awaiting ?q')"
    using i' r by (auto simp: inv_def settled_ok_def)
  have late: "task_settles t s ?q' =
      ?q'\<lparr> inflight := removeAll t (inflight ?q'), timers := removeAll t (timers ?q') \<rparr>"
    using fl' na by (simp add: task_settles_def Let_def)
  have "\<forall>bs. settled (exec bs ?q') t = Some (Rejected TimeoutError)"
    using r by (simp add: settled_stable)
  then show ?thesis using p tm r fl' late by blast
qed

theorem timeout_rejects_and_discards_witness:
  "opt_timeout \<lparr> opt_concurrency = None, opt_timeout = Some 50,
                     opt_throwOnTimeout = None, opt_autoStart = None \<rparr> = Some 50 \<and> (0::int) < 50 \<and>
   0 \<in> set (awaiting (exec [Add None] (the_queue \<lparr> opt_concurrency = None, opt_timeout = Some 50,
                     opt_throwOnTimeout = None, opt_autoStart = None \<rparr> :: (nat, nat) TaskQueue))) \<and>
   settled (timer_fires 0 (exec [Add None] (the_queue \<lparr> opt_concurrency = None, opt_timeout = Some 50,
                     opt_throwOnTimeout = None, opt_autoStart = None \<rparr> :: (nat, nat) TaskQueue))) 0
     = Some (Rejected TimeoutError) \<and>
   0 \<in> set (inflight (timer_fires 0 (exec [Add None] (the_queue \<lparr> opt_concurrency = None, opt_timeout = Some 50,
                     opt_throwOnTimeout = None, opt_autoStart = None \<rparr> :: (nat, nat) TaskQueue)))) \<and>
   settled (exec [TaskSettles 0 (Resolves 7)]
      (timer_fires 0 (exec [Add None] (the_queue \<lparr> opt_concurrency = None, opt_timeout = Some 50,
                     opt_throwOnTimeout = None, opt_autoStart = None \<rparr> :: (nat, nat) TaskQueue)))) 0
     = Some (Rejected TimeoutError)"
proof -
  let ?Q = "exec [Add None] (the_queue \<lparr> opt_concurrency = None, opt_timeout = Some 50,
                     opt_throwOnTimeout = None, opt_autoStart = None \<rparr> :: (nat, nat) TaskQueue)"
  have h1: "opt_timeout \<lparr> opt_concurrency = None, opt_timeout = Some 50,
                     opt_throwOnTimeout = None, opt_autoStart = None \<rparr> = Some 50" by simp
  have h2: "(0::int) < 50" by simp
  have h3: "0 \<in> set (awaiting ?Q)" by code_simp
  note c4 = timeout_rejects_and_discards [OF h1 h2 h3]
  have "settled (timer_fires 0 ?Q) 0 = Some (Rejected TimeoutError)"
    and "0 \<in> set (inflight (timer_fires 0 ?Q))"
    and "settled (exec [TaskSettles 0 (Resolves 7)] (timer_fires 0 ?Q)) 0
           = Some (Rejected TimeoutError)"
    using c4 by blast+
  then show ?thesis using h1 h2 h3 by blast
qed

text \<open>
  C5 as stated fails when a timeout is configured and the timer fires first (the case of
  C4): the task was called and resolves with 7, and its promise is rejected with
  \<open>TimeoutError\<close>.
\<close>

theorem late_value_not_passed_to_future:
  "0 \<in> set (inflight (exec [Add None, TimerFires 0] (the_queue \<lparr> opt_concurrency = None, opt_timeout = Some 50,
                     opt_throwOnTimeout = None, opt_autoStart = None \<rparr> :: (nat, nat) TaskQueue))) \<and>
   settled (exec [Add None, TimerFires 0, TaskSettles 0 (Resolves 7)]
      (the_queue \<lparr> opt_concurrency = None, opt_timeout = Some 50,
                     opt_throwOnTimeout = None, opt_autoStart = None \<rparr> :: (nat, nat) TaskQueue)) 0 = Some (Rejected TimeoutError) \<and>
   settled (exec [Add None, TimerFires 0, TaskSettles 0 (Resolves 7)]
      (the_queue \<lparr> opt_concurrency = None, opt_timeout = Some 50,
                     opt_throwOnTimeout = None, opt_autoStart = None \<rparr> :: (nat, nat) TaskQueue)) 0 \<noteq> Some (Fulfilled 7)"
  by code_simp

text \<open>
  C5, as amended. Let task \<open>t\<close> be in flight in a state the queue has reached, with no
  timeout configured or with its timer still set (the timer has not fired). When the task
  resolves with \<open>v\<close>, the promise that \<^verbatim>\<open>add\<close> returned for it resolves with exactly \<open>v\<close>;
  when it fails with \<open>e\<close>, that promise rejects with exactly \<open>e\<close>; and the promise keeps
  that state whatever happens afterwards.
\<close>

theorem settlement_passed_to_future:
  assumes "t \<in> set (inflight (exec as (the_queue opts)))"
    and "timeout (exec as (the_queue opts)) \<le> 0 \<or> t \<in> set (timers (exec as (the_queue opts)))"
  shows "settled (exec bs (task_settles t (Resolves v) (exec as (the_queue opts)))) t
           = Some (Fulfilled v) \<and>
         settled (exec bs (task_settles t (Rejects e) (exec as (the_queue opts)))) t
           = Some (Rejected (TaskError e))"
proof -
  let ?q = "exec as (the_queue opts)"
  have i: "inv ?q" by (rule inv_reachable)
  have aw: "t \<in> set (awaiting ?q)"
    using i assms by (auto simp: inv_def running_ok_def split: if_splits)
  have p: "settled ?q t = None" using i aw by (rule awaiting_pending)
  have "settled (task_settles t s ?q) t = Some (outcome_of s)" for s
    using assms(1) aw p by (simp add: task_settles_def Let_def settled_runTask_resume)
  then show ?thesis by (simp add: settled_stable)
qed

theorem settlement_passed_to_future_witness:
  "0 \<in> set (inflight (exec [Add None] (the_queue \<lparr> opt_concurrency = None, opt_timeout = None,
                     opt_throwOnTimeout = None, opt_autoStart = None \<rparr> :: (nat, nat) TaskQueue))) \<and>
   timeout (exec [Add None] (the_queue \<lparr> opt_concurrency = None, opt_timeout = None,
                     opt_throwOnTimeout = None, opt_autoStart = None \<rparr> :: (nat, nat) TaskQueue)) \<le> 0 \<and>
   settled (exec [Add None] (task_settles 0 (Resolves 7)
      (exec [Add None] (the_queue \<lparr> opt_concurrency = None, opt_timeout = None,
                     opt_throwOnTimeout = None, opt_autoStart = None \<rparr> :: (nat, nat) TaskQueue)))) 0 = Some (Fulfilled 7) \<and>
   settled (exec [Add None] (task_settles 0 (Rejects 3)
      (exec [Add None] (the_queue \<lparr> opt_concurrency = None, opt_timeout = None,
                     opt_throwOnTimeout = None, opt_autoStart = None \<rparr> :: (nat, nat) TaskQueue)))) 0
     = Some (Rejected (TaskError 3))"
proof -
  let ?Q = "exec [Add None] (the_queue \<lparr> opt_concurrency = None, opt_timeout = None,
                     opt_throwOnTimeout = None, opt_autoStart = None \<rparr> :: (nat, nat) TaskQueue)"
  have h1: "0 \<in> set (inflight ?Q)" by code_simp
  have h2: "timeout ?Q \<le> 0" by code_simp
  then have h2': "timeout ?Q \<le> 0 \<or> 0 \<in> set (timers ?Q)" by blast
  show ?thesis
    using settlement_passed_to_future [OF h1 h2', of "[Add None]" 7 3] h1 h2 by blast
qed

text \<open>
  C6 as stated fails: \<^verbatim>\<open>add\<close> calls \<^verbatim>\<open>processQueue\<close> only under
  \<^verbatim>\<open>this.autoStart && !this.paused\<close>. On a queue constructed with \<^verbatim>\<open>autoStart: false\<close> and
  started since, which is not paused and has capacity, \<^verbatim>\<open>add\<close> calls no task: the new
  entry waits.
\<close>

theorem add_after_start_does_not_dispatch:
  "\<not> paused (exec [Start] (the_queue \<lparr> opt_concurrency = None, opt_timeout = None,
        opt_throwOnTimeout = None, opt_autoStart = Some False \<rparr> :: (nat, nat) TaskQueue)) \<and>
   less_limit (runningTasks (exec [Start] (the_queue \<lparr> opt_concurrency = None, opt_timeout = None,
        opt_throwOnTimeout = None, opt_autoStart = Some False \<rparr> :: (nat, nat) TaskQueue)))
     (concurrency (exec [Start] (the_queue \<lparr> opt_concurrency = None, opt_timeout = None,
        opt_throwOnTimeout = None, opt_autoStart = Some False \<rparr> :: (nat, nat) TaskQueue))) \<and>
   called (snd (add None (exec [Start] (the_queue \<lparr> opt_concurrency = None, opt_timeout = None,
        opt_throwOnTimeout = None, opt_autoStart = Some False \<rparr> :: (nat, nat) TaskQueue)))) = [] \<and>
   map task (taskQueue (snd (add None (exec [Start] (the_queue \<lparr> opt_concurrency = None,
        opt_timeout = None, opt_throwOnTimeout = None, opt_autoStart = Some False \<rparr>
          :: (nat, nat) TaskQueue)))))
     = [fst (add None (exec [Start] (the_queue \<lparr> opt_concurrency = None, opt_timeout = None,
        opt_throwOnTimeout = None, opt_autoStart = Some False \<rparr> :: (nat, nat) TaskQueue)))]"
  by code_simp

text \<open>
  C6, as amended. \<^verbatim>\<open>autoStart\<close> keeps the value given at construction. In a state the
  queue has reached, \<^verbatim>\<open>add\<close> calls the submitted task (and leaves nothing waiting) if
  \<^verbatim>\<open>autoStart\<close> is set, the queue is not paused and \<^verbatim>\<open>runningTasks\<close> is below
  \<^verbatim>\<open>concurrency\<close>; otherwise \<^verbatim>\<open>add\<close> calls no task and the submitted task waits.
\<close>

theorem add_starts_task_iff:
  "autoStart (exec as (the_queue opts)) = (opt_autoStart opts \<noteq> Some False) \<and>
   (if autoStart (exec as (the_queue opts)) \<and> \<not> paused (exec as (the_queue opts)) \<and>
       less_limit (runningTasks (exec as (the_queue opts))) (concurrency (exec as (the_queue opts)))
    then called (snd (add prio (exec as (the_queue opts))))
           = called (exec as (the_queue opts)) @ [fst (add prio (exec as (the_queue opts)))] \<and>
         awaiting (snd (add prio (exec as (the_queue opts))))
           = awaiting (exec as (the_queue opts)) @ [fst (add prio (exec as (the_queue opts)))] \<and>
         taskQueue (snd (add prio (exec as (the_queue opts)))) = []
    else called (snd (add prio (exec as (the_queue opts)))) = called (exec as (the_queue opts)) \<and>
         fst (add prio (exec as (the_queue opts)))
           \<in> set (map task (taskQueue (snd (add prio (exec as (the_queue opts)))))))"
proof -
  let ?q = "exec as (the_queue opts)"
  have a: "autoStart ?q = (opt_autoStart opts \<noteq> Some False)"
    by (cases "opt_autoStart opts") auto
  show ?thesis
  proof (cases "autoStart ?q \<and> \<not> paused ?q \<and> less_limit (runningTasks ?q) (concurrency ?q)")
    case True
    then have "taskQueue ?q = []" using drained_reachable [of as opts] by (auto simp: drained_def)
    then have "called (snd (add prio ?q)) = called ?q @ [fst (add prio ?q)]"
      and "awaiting (snd (add prio ?q)) = awaiting ?q @ [fst (add prio ?q)]"
      and "taskQueue (snd (add prio ?q)) = []"
      using True add_dispatches [of ?q prio] by blast+
    then show ?thesis unfolding if_P [OF True] using a by blast
  next
    case False
    have "called (snd (add prio ?q)) = called ?q"
      and "fst (add prio ?q) \<in> set (map task (taskQueue (snd (add prio ?q))))"
      using add_waits [OF False, of prio] by blast+
    then show ?thesis unfolding if_not_P [OF False] using a by blast
  qed
qed

theorem add_starts_task_iff_witness:
  "autoStart (exec [] (the_queue \<lparr> opt_concurrency = None, opt_timeout = None,
        opt_throwOnTimeout = None, opt_autoStart = None \<rparr> :: (nat, nat) TaskQueue)) \<and>
   \<not> paused (exec [] (the_queue \<lparr> opt_concurrency = None, opt_timeout = None,
        opt_throwOnTimeout = None, opt_autoStart = None \<rparr> :: (nat, nat) TaskQueue)) \<and>
   less_limit (runningTasks (exec [] (the_queue \<lparr> opt_concurrency = None, opt_timeout = None,
        opt_throwOnTimeout = None, opt_autoStart = None \<rparr> :: (nat, nat) TaskQueue)))
     (concurrency (exec [] (the_queue \<lparr> opt_concurrency = None, opt_timeout = None,
        opt_throwOnTimeout = None, opt_autoStart = None \<rparr> :: (nat, nat) TaskQueue))) \<and>
   called (snd (add None (exec [] (the_queue \<lparr> opt_concurrency = None, opt_timeout = None,
        opt_throwOnTimeout = None, opt_autoStart = None \<rparr> :: (nat, nat) TaskQueue))))
     = called (exec [] (the_queue \<lparr> opt_concurrency = None, opt_timeout = None,
        opt_throwOnTimeout = None, opt_autoStart = None \<rparr> :: (nat, nat) TaskQueue))
         @ [fst (add None (exec [] (the_queue \<lparr> opt_concurrency = None, opt_timeout = None,
        opt_throwOnTimeout = None, opt_autoStart = None \<rparr> :: (nat, nat) TaskQueue)))]"
proof -
  let ?q = "exec [] (the_queue \<lparr> opt_concurrency = None, opt_timeout = None,
        opt_throwOnTimeout = None, opt_autoStart = None \<rparr> :: (nat, nat) TaskQueue)"
  have C: "autoStart ?q \<and> \<not> paused ?q \<and> less_limit (runningTasks ?q) (concurrency ?q)"
    by code_simp
  have "called (snd (add None ?q)) = called ?q @ [fst (add None ?q)]"
    using add_starts_task_iff [of "[] :: (nat, nat) action list" "\<lparr> opt_concurrency = None, opt_timeout = None,
        opt_throwOnTimeout = None, opt_autoStart = None \<rparr>" None] unfolding if_P [OF C] by blast
  then show ?thesis using C by blast
qed

text \<open>
  C7 as stated fails: the constructor has no check and no \<^verbatim>\<open>throw\<close>; it accepts an
  options object with the concurrency \<open>- 1\<close> and stores that value.
\<close>

theorem negative_concurrency_accepted:
  "\<not> isl (new_TaskQueue (Arg_object \<lparr> opt_concurrency = Some (Finite (- 1)), opt_timeout = None,
        opt_throwOnTimeout = None, opt_autoStart = None \<rparr>) :: js_error + (nat, nat) TaskQueue) \<and>
   (new_TaskQueue (Arg_object \<lparr> opt_concurrency = Some (Finite (- 1)), opt_timeout = None,
        opt_throwOnTimeout = None, opt_autoStart = None \<rparr>) :: js_error + (nat, nat) TaskQueue) = Inr (the_queue \<lparr> opt_concurrency = Some (Finite (- 1)), opt_timeout = None,
        opt_throwOnTimeout = None, opt_autoStart = None \<rparr>) \<and>
   concurrency (the_queue \<lparr> opt_concurrency = Some (Finite (- 1)), opt_timeout = None,
        opt_throwOnTimeout = None, opt_autoStart = None \<rparr> :: (nat, nat) TaskQueue) = Finite (- 1)"
  by (simp add: new_TaskQueue_def)

text \<open>
  C7, as amended. Construction with a misused configuration value, for example a negative
  concurrency, does not fail at construction time, and it does not fail at dispatch time
  either. For every options object the constructor returns a queue that holds the four
  options as given (the defaults for absent ones), unchecked. A queue constructed with a
  negative concurrency then goes through any sequence of steps without ever calling a
  task. The constructor fails for a \<^verbatim>\<open>null\<close> argument only, with the \<^verbatim>\<open>TypeError\<close> of
  destructuring; for an absent argument it builds the default queue.
\<close>

theorem constructor_validates_nothing:
  "new_TaskQueue (Arg_object opts) = Inr (the_queue opts) \<and>
   concurrency (the_queue opts) = (case opt_concurrency opts of None \<Rightarrow> Infinity | Some c \<Rightarrow> c) \<and>
   timeout (the_queue opts) = (case opt_timeout opts of None \<Rightarrow> 0 | Some t \<Rightarrow> t) \<and>
   throwOnTimeout (the_queue opts)
     = (case opt_throwOnTimeout opts of None \<Rightarrow> False | Some b \<Rightarrow> b) \<and>
   autoStart (the_queue opts) = (case opt_autoStart opts of None \<Rightarrow> True | Some b \<Rightarrow> b) \<and>
   (\<forall>c. opt_concurrency opts = Some (Finite c) \<and> c < 0 \<longrightarrow>
      (\<forall>as. called (exec as (the_queue opts)) = [] \<and>
            runningTasks (exec as (the_queue opts)) = 0)) \<and>
   new_TaskQueue Arg_null = Inl TypeError \<and>
   new_TaskQueue Arg_undefined
     = Inr (the_queue \<lparr> opt_concurrency = None, opt_timeout = None,
                        opt_throwOnTimeout = None, opt_autoStart = None \<rparr>)"
proof -
  have "called (exec as (the_queue opts)) = [] \<and> runningTasks (exec as (the_queue opts)) = 0"
    if "opt_concurrency opts = Some (Finite c)" and "c < 0" for c as
  proof -
    have "dormant (the_queue opts)" using that by (simp add: dormant_def)
    then have "dormant (exec as (the_queue opts))" by (rule dormant_exec)
    then show ?thesis by (simp add: dormant_def)
  qed
  moreover have "throwOnTimeout (the_queue opts)
     = (case opt_throwOnTimeout opts of None \<Rightarrow> False | Some b \<Rightarrow> b)"
    by (simp add: the_queue_def Let_def)
  ultimately show ?thesis by (auto simp: new_TaskQueue_def)
qed

text \<open>
  The witness: concurrency \<open>- 3\<close> and timeout \<open>- 1\<close>. The queue is constructed; two tasks
  are added around a \<^verbatim>\<open>start()\<close>, and none is called.
\<close>

theorem constructor_validates_nothing_witness:
  "opt_concurrency \<lparr> opt_concurrency = Some (Finite (- 3)), opt_timeout = Some (- 1),
        opt_throwOnTimeout = None, opt_autoStart = None \<rparr> = Some (Finite (- 3)) \<and> (- 3 :: real) < 0 \<and>
   \<not> isl (new_TaskQueue (Arg_object \<lparr> opt_concurrency = Some (Finite (- 3)), opt_timeout = Some (- 1),
        opt_throwOnTimeout = None, opt_autoStart = None \<rparr>) :: js_error + (nat, nat) TaskQueue) \<and>
   called (exec [Add None, Start, Add (Some 1)] (the_queue \<lparr> opt_concurrency = Some (Finite (- 3)), opt_timeout = Some (- 1),
        opt_throwOnTimeout = None, opt_autoStart = None \<rparr> :: (nat, nat) TaskQueue)) = []"
proof -
  have h: "opt_concurrency \<lparr> opt_concurrency = Some (Finite (- 3)), opt_timeout = Some (- 1),
        opt_throwOnTimeout = None, opt_autoStart = None \<rparr> = Some (Finite (- 3)) \<and> (- 3 :: real) < 0" by simp
  note c7 = constructor_validates_nothing [of "\<lparr> opt_concurrency = Some (Finite (- 3)),
        opt_timeout = Some (- 1), opt_throwOnTimeout = None, opt_autoStart = None \<rparr>"]
  have "(new_TaskQueue (Arg_object \<lparr> opt_concurrency = Some (Finite (- 3)), opt_timeout = Some (- 1),
        opt_throwOnTimeout = None, opt_autoStart = None \<rparr>) :: js_error + (nat, nat) TaskQueue) = Inr (the_queue \<lparr> opt_concurrency = Some (Finite (- 3)), opt_timeout = Some (- 1),
        opt_throwOnTimeout = None, opt_autoStart = None \<rparr>)"
    using c7 by blast
  then have 1: "\<not> isl (new_TaskQueue (Arg_object \<lparr> opt_concurrency = Some (Finite (- 3)), opt_timeout = Some (- 1),
        opt_throwOnTimeout = None, opt_autoStart = None \<rparr>) :: js_error + (nat, nat) TaskQueue)"
    by simp
  have 2: "called (exec [Add None, Start, Add (Some 1)] (the_queue \<lparr> opt_concurrency = Some (Finite (- 3)), opt_timeout = Some (- 1),
        opt_throwOnTimeout = None, opt_autoStart = None \<rparr> :: (nat, nat) TaskQueue)) = []"
    using c7 h by blast
  show ?thesis using h 1 2 by blast
qed
text \<open>
  C3. The code violates the claim. \<^verbatim>\<open>onEmpty\<close> resolves at once on an empty waiting
  sequence, and otherwise registers a listener for the event \<^verbatim>\<open>"empty"\<close>, which no method
  of the class ever emits. Here a task waits when \<^verbatim>\<open>onEmpty()\<close> is called (it returns
  promise 1); \<^verbatim>\<open>start()\<close> then empties the waiting sequence, the task resolves, and
  \<^verbatim>\<open>onIdle()\<close>, called on the idle queue, returns promise 2 resolved. Promise 1 is not
  resolved and its listener is still registered. (Lemma \<open>onEmpty_never_resolves\<close> shows
  the same for every reachable state with a task waiting and every continuation.)
\<close>

theorem onEmpty_not_resolved_when_queue_empties:
  "fst (onEmpty (exec [Add None] (the_queue \<lparr> opt_concurrency = None, opt_timeout = None,
        opt_throwOnTimeout = None, opt_autoStart = Some False \<rparr> :: (nat, nat) TaskQueue))) = 1 \<and>
   taskQueue (exec [Add None, OnEmpty] (the_queue \<lparr> opt_concurrency = None, opt_timeout = None,
        opt_throwOnTimeout = None, opt_autoStart = Some False \<rparr> :: (nat, nat) TaskQueue)) \<noteq> [] \<and>
   taskQueue (exec [Add None, OnEmpty, Start] (the_queue \<lparr> opt_concurrency = None,
        opt_timeout = None, opt_throwOnTimeout = None, opt_autoStart = Some False \<rparr>
          :: (nat, nat) TaskQueue)) = [] \<and>
   1 \<notin> set (resolvedVoid (exec [Add None, OnEmpty, Start] (the_queue \<lparr> opt_concurrency = None,
        opt_timeout = None, opt_throwOnTimeout = None, opt_autoStart = Some False \<rparr>
          :: (nat, nat) TaskQueue))) \<and>
   resolvedVoid (exec [Add None, OnEmpty, Start, TaskSettles 0 (Resolves 7), OnIdle]
      (the_queue \<lparr> opt_concurrency = None,
        opt_timeout = None, opt_throwOnTimeout = None, opt_autoStart = Some False \<rparr>
          :: (nat, nat) TaskQueue)) = [2] \<and>
   onceListeners (exec [Add None, OnEmpty, Start, TaskSettles 0 (Resolves 7), OnIdle]
      (the_queue \<lparr> opt_concurrency = None,
        opt_timeout = None, opt_throwOnTimeout = None, opt_autoStart = Some False \<rparr>
          :: (nat, nat) TaskQueue)) = [(E_empty, 1)]"
  by code_simp

end
